theory Spec2Isabelle
  imports Main "HOL-Library.AList"
begin

section \<open>The authored dataset (decisions.json)\<close>

text \<open>
  The dataset is one JSON document with the collections \<open>decisions\<close>, \<open>effects\<close>,
  \<open>consumers\<close> and \<open>meta.tapes\<close>. A JSON object is modelled as the list of its
  entries in the order \<open>Object.entries\<close> yields them; its keys are distinct, which
  the theorems that need it assume of the three collections. An array the source reads
  as \<open>x || []\<close> is a list, the absent array being the empty list. Ids and tape names
  are strings.
\<close>

record choice_option =
  opt_id :: string
  opt_effects :: "string list"

record decision =
  dec_tape :: string
  options :: "choice_option list"

text \<open>
  An effect: \<open>etype\<close> is the \<open>type\<close> tag (the source compares it with the strings
  \<open>stat\<close>, \<open>flag\<close>, \<open>memory\<close>, \<open>arc\<close> and has a default branch for anything else),
  \<open>stat\<close> and \<open>delta\<close> are read for a stat effect only, and \<open>delta\<close> is an integer.
\<close>

record effect =
  etype :: string
  stat :: "string option"
  delta :: int
  description :: "string option"
  consumed_by :: "string list"

record consumer =
  con_tape :: string
  checks :: "string list"

record dataset =
  decisions :: "(string \<times> decision) list"
  effects :: "(string \<times> effect) list"
  consumers :: "(string \<times> consumer) list"
  tapes :: "string list"

section \<open>validate-decisions.mjs\<close>

text \<open>
  What the validator pushes to its \<open>errors\<close> and \<open>warnings\<close> arrays. Each constructor
  is one \<open>type\<close> of the source and carries the ids the pushed object and its message
  are built from.
\<close>

datatype finding =
    BROKEN_EFFECT_REFERENCE string string string
  | BROKEN_CONSUMER_REFERENCE string string
  | GHOST_EFFECT string "string list"
  | UNUSED_EFFECT string
  | GHOST_DECISION string
  | UNKNOWN_TAPE string string
  | BACKWARD_DEPENDENCY string "string option" string

record report =
  errors :: "finding list"
  warnings :: "finding list"

subsection \<open>Checks 1 and 2: the indexes\<close>

text \<open>
  A JavaScript \<open>Map\<close> keeps its keys in insertion order, and \<open>set\<close> on a key it holds
  keeps the key's place: an association list under \<open>AList.update\<close>. \<open>index_push\<close> is
  \<open>if (!m.has(k)) m.set(k, []); m.get(k).push(v)\<close>.
\<close>

definition index_push :: "(string \<times> 'v list) list \<Rightarrow> string \<Rightarrow> 'v \<Rightarrow> (string \<times> 'v list) list" where
  "index_push m k v =
     (case map_of m k of
        None \<Rightarrow> AList.update k [v] m
      | Some vs \<Rightarrow> AList.update k (vs @ [v]) m)"

definition producedEffects :: "dataset \<Rightarrow> (string \<times> string list) list" where
  "producedEffects ds =
     fold (\<lambda>(decId, dec) m.
        fold (\<lambda>opt m. fold (\<lambda>effectId m. index_push m effectId decId) (opt_effects opt) m)
          (options dec) m)
       (decisions ds) []"

definition consumedEffects :: "dataset \<Rightarrow> (string \<times> string list) list" where
  "consumedEffects ds =
     fold (\<lambda>(consumerId, con) m.
        fold (\<lambda>effectId m. index_push m effectId consumerId) (checks con) m)
       (consumers ds) []"

definition allEffectIds :: "dataset \<Rightarrow> string list" where
  "allEffectIds ds = map fst (effects ds)"

subsection \<open>Check 3: broken references\<close>

definition broken_effect_references :: "dataset \<Rightarrow> finding list" where
  "broken_effect_references ds =
     [BROKEN_EFFECT_REFERENCE decId (opt_id opt) effectId.
        (decId, dec) \<leftarrow> decisions ds, opt \<leftarrow> options dec, effectId \<leftarrow> opt_effects opt,
        effectId \<notin> set (allEffectIds ds)]"

definition broken_consumer_references :: "dataset \<Rightarrow> finding list" where
  "broken_consumer_references ds =
     [BROKEN_CONSUMER_REFERENCE consumerId effectId.
        (consumerId, con) \<leftarrow> consumers ds, effectId \<leftarrow> checks con,
        effectId \<notin> set (allEffectIds ds)]"

subsection \<open>Check 4: ghost effects\<close>

text \<open>
  \<open>effects[effectId]\<close> may be undefined (a produced id that the catalog lacks), and
  the source reads it through \<open>effect?.type\<close> and \<open>effect?.consumed_by?.length\<close>.
\<close>

definition type_is :: "effect option \<Rightarrow> string \<Rightarrow> bool" where
  "type_is eff t = (case eff of None \<Rightarrow> False | Some e \<Rightarrow> etype e = t)"

definition inline_consumed_by :: "effect option \<Rightarrow> string list" where
  "inline_consumed_by eff = (case eff of None \<Rightarrow> [] | Some e \<Rightarrow> consumed_by e)"

definition ghost_effect_check :: "dataset \<Rightarrow> string \<times> string list \<Rightarrow> finding list" where
  "ghost_effect_check ds entry =
     (let effectId = fst entry; producers = snd entry;
          eff = map_of (effects ds) effectId;
          effectConsumers = (case map_of (consumedEffects ds) effectId of None \<Rightarrow> [] | Some cs \<Rightarrow> cs)
      in if type_is eff ''stat'' then []
         else if type_is eff ''arc'' then []
         else if effectConsumers = [] \<and> inline_consumed_by eff = []
           then (if inline_consumed_by eff \<noteq> [] then [] else [GHOST_EFFECT effectId producers])
         else [])"

definition ghost_effect_warnings :: "dataset \<Rightarrow> finding list" where
  "ghost_effect_warnings ds = concat (map (ghost_effect_check ds) (producedEffects ds))"

subsection \<open>Check 5: unused effects\<close>

definition unused_effect_warnings :: "dataset \<Rightarrow> finding list" where
  "unused_effect_warnings ds =
     [UNUSED_EFFECT effectId. effectId \<leftarrow> allEffectIds ds, map_of (producedEffects ds) effectId = None]"

subsection \<open>Check 6: ghost decisions\<close>

text \<open>
  \<open>new Set(array)\<close> keeps the first occurrence of each element, in order. \<open>setsEqual\<close>
  compares the sizes and then looks every item of the first set up in the second.
\<close>

definition new_Set :: "string list \<Rightarrow> string list" where
  "new_Set xs = fold (\<lambda>x s. if x \<in> set s then s else s @ [x]) xs []"

definition setsEqual :: "string list \<Rightarrow> string list \<Rightarrow> bool" where
  "setsEqual a b = (if length a \<noteq> length b then False else list_all (\<lambda>item. item \<in> set b) a)"

definition allIdentical :: "string list list \<Rightarrow> bool" where
  "allIdentical arr = list_all (\<lambda>(i, s). i = 0 \<or> setsEqual s (arr ! 0)) (enumerate 0 arr)"

definition ghost_decision_check :: "string \<times> decision \<Rightarrow> finding list" where
  "ghost_decision_check entry =
     (let decId = fst entry;
          optionEffectSets = map (\<lambda>opt. new_Set (opt_effects opt)) (options (snd entry))
      in if 2 \<le> length optionEffectSets
         then (if allIdentical optionEffectSets then [GHOST_DECISION decId] else [])
         else [])"

definition ghost_decision_errors :: "dataset \<Rightarrow> finding list" where
  "ghost_decision_errors ds = concat (map ghost_decision_check (decisions ds))"

subsection \<open>Check 7: tape ordering\<close>

text \<open>
  \<open>tapeIndex\<close> is a plain object, filled by
  \<open>tapeOrder.forEach((tape, i) => tapeIndex[tape] = i)\<close>. A tape listed twice keeps its
  last position. An assignment under the key \<open>__proto__\<close> creates no property: the
  inherited setter ignores a number. So the own properties of the object are these.
\<close>

definition tapeIndex :: "dataset \<Rightarrow> string \<Rightarrow> nat option" where
  "tapeIndex ds =
     fold (\<lambda>(i, t) m. if t = ''__proto__'' then m else m(t \<mapsto> i)) (enumerate 0 (tapes ds)) Map.empty"

text \<open>
  Reading \<open>tapeIndex[name]\<close> yields the own property if there is one, else the member a
  plain object inherits from \<open>Object.prototype\<close> under that name, else undefined.
  \<open>tapeIndex[producerDec?.tape]\<close> turns an undefined tape into the key \<open>undefined\<close>.
\<close>

definition object_prototype_names :: "string list" where
  "object_prototype_names =
     [''constructor'', ''__defineGetter__'', ''__defineSetter__'', ''hasOwnProperty'',
      ''__lookupGetter__'', ''__lookupSetter__'', ''isPrototypeOf'', ''propertyIsEnumerable'',
      ''toString'', ''valueOf'', ''__proto__'', ''toLocaleString'']"

datatype index_value = NoIndex | Index nat | InheritedMember string

definition tapeIndex_get :: "dataset \<Rightarrow> string \<Rightarrow> index_value" where
  "tapeIndex_get ds name =
     (case tapeIndex ds name of
        Some i \<Rightarrow> Index i
      | None \<Rightarrow> if name \<in> set object_prototype_names then InheritedMember name else NoIndex)"

definition property_key :: "string option \<Rightarrow> string" where
  "property_key k = (case k of None \<Rightarrow> ''undefined'' | Some s \<Rightarrow> s)"

text \<open>
  \<open>a > b\<close> on such values. Two numbers compare as numbers. An inherited member is an
  object, which the comparison converts to a string: next to a number that string
  converts to NaN and the comparison is false; two members compare as their strings, by
  code units. Under Node, which runs the validator, a built-in function converts to
  \<open>function NAME() { [native code] }\<close> with its own name (the member \<open>constructor\<close> is the
  function \<open>Object\<close>), and \<open>Object.prototype\<close>, the value read under \<open>__proto__\<close>, to
  \<open>[object Object]\<close>. Undefined converts to NaN.
\<close>

definition member_text :: "string \<Rightarrow> string" where
  "member_text name =
     (if name = ''__proto__'' then ''[object Object]''
      else ''function '' @ (if name = ''constructor'' then ''Object'' else name) @ ''() { [native code] }'')"

fun code_units_less :: "string \<Rightarrow> string \<Rightarrow> bool" where
  "code_units_less [] [] = False"
| "code_units_less [] (y # ys) = True"
| "code_units_less (x # xs) [] = False"
| "code_units_less (x # xs) (y # ys) =
     ((of_char x :: nat) < of_char y \<or> (x = y \<and> code_units_less xs ys))"

definition js_greater :: "index_value \<Rightarrow> index_value \<Rightarrow> bool" where
  "js_greater a b =
     (case a of
        Index i \<Rightarrow> (case b of Index j \<Rightarrow> j < i | _ \<Rightarrow> False)
      | InheritedMember m \<Rightarrow>
          (case b of InheritedMember n \<Rightarrow> code_units_less (member_text n) (member_text m) | _ \<Rightarrow> False)
      | NoIndex \<Rightarrow> False)"

text \<open>\<open>producerIdx !== undefined && producerIdx > consumerIdx\<close>.\<close>

definition later_producer :: "dataset \<Rightarrow> index_value \<Rightarrow> string \<Rightarrow> bool" where
  "later_producer ds consumerIdx producerDecId =
     (let producerTape = map_option dec_tape (map_of (decisions ds) producerDecId);
          producerIdx = tapeIndex_get ds (property_key producerTape)
      in producerIdx \<noteq> NoIndex \<and> js_greater producerIdx consumerIdx)"

definition tape_order_check :: "dataset \<Rightarrow> string \<times> consumer \<Rightarrow> finding list \<times> finding list" where
  "tape_order_check ds entry =
     (let consumerId = fst entry; consumerTape = con_tape (snd entry);
          consumerIdx = tapeIndex_get ds consumerTape
      in if consumerIdx = NoIndex
         then ([], [UNKNOWN_TAPE consumerId consumerTape])
         else
           ([BACKWARD_DEPENDENCY consumerTape
               (map_option dec_tape (map_of (decisions ds) producerDecId)) effectId.
               effectId \<leftarrow> checks (snd entry),
               producerDecId \<leftarrow> (case map_of (producedEffects ds) effectId of None \<Rightarrow> [] | Some ps \<Rightarrow> ps),
               later_producer ds consumerIdx producerDecId], []))"

definition backward_dependency_errors :: "dataset \<Rightarrow> finding list" where
  "backward_dependency_errors ds = concat (map (\<lambda>entry. fst (tape_order_check ds entry)) (consumers ds))"

definition unknown_tape_warnings :: "dataset \<Rightarrow> finding list" where
  "unknown_tape_warnings ds = concat (map (\<lambda>entry. snd (tape_order_check ds entry)) (consumers ds))"

subsection \<open>The validator\<close>

text \<open>
  The checks run in the source's order and push to two arrays; the exit status is 1 when
  there is an error and 0 otherwise.
\<close>

definition validate :: "dataset \<Rightarrow> report" where
  "validate ds =
     \<lparr> errors = broken_effect_references ds @ broken_consumer_references ds
                @ ghost_decision_errors ds @ backward_dependency_errors ds,
       warnings = ghost_effect_warnings ds @ unused_effect_warnings ds @ unknown_tape_warnings ds \<rparr>"

definition exit_status :: "dataset \<Rightarrow> nat" where
  "exit_status ds = (if errors (validate ds) = [] then 0 else 1)"

section \<open>GameEngine.js: the DecisionEngine\<close>

subsection \<open>Player state, history and storage\<close>

record memory =
  mem_id :: string
  mem_description :: "string option"
  mem_timestamp :: int

record history_entry =
  h_decisionId :: string
  h_optionId :: string
  h_timestamp :: int
  h_tape :: string

text \<open>
  \<open>#playerState\<close> is one plain object with seven own properties: the four stats, and
  the three collections. A \<open>Set\<close> is the list of its elements in insertion order.
  Stats are integers.
\<close>

record player_state =
  trust :: int
  guard :: int
  honesty :: int
  vulnerability :: int
  activeFlags :: "string list"
  memories :: "memory list"
  arcFlags :: "string list"

text \<open>
  A JSON document as \<open>#restoreState\<close> reads it: every property may be absent. It has
  room for both shapes the engine writes: \<open>#saveState\<close> nests the four stats under
  \<open>stats\<close>, \<open>getState\<close> (and so \<open>exportState\<close>) puts them at top level. A
  \<open>stats\<close> object holds integers under the four stat names and nothing else. A JSON
  value that is not an object has none of the properties.
  \<open>JSON.stringify\<close> followed by \<open>JSON.parse\<close> is taken to give back a document of
  this shape unchanged.
\<close>

record saved_stats =
  s_trust :: "int option"
  s_guard :: "int option"
  s_honesty :: "int option"
  s_vulnerability :: "int option"

record json_state =
  j_stats :: "saved_stats option"
  j_trust :: "int option"
  j_guard :: "int option"
  j_honesty :: "int option"
  j_vulnerability :: "int option"
  j_flags :: "string list option"
  j_memories :: "memory list option"
  j_arcs :: "string list option"
  j_history :: "history_entry list option"

text \<open>A string handed to \<open>JSON.parse\<close>: it throws, or yields a document.\<close>

datatype json_text = NotJson | Json json_state

text \<open>
  \<open>localStorage\<close> under the engine's key: the stored document if any, and whether
  \<open>setItem\<close> succeeds (it throws when the quota is exceeded or storage is unavailable).
\<close>

record storage =
  item :: "json_state option"
  writable :: bool

record engine =
  decisions_map :: "(string \<times> decision) list"
  effects_map :: "(string \<times> effect) list"
  consumers_map :: "(string \<times> (string \<times> consumer) list) list"
  producedBy :: "(string \<times> string) list"
  playerState :: player_state
  history :: "history_entry list"
  localStorage :: storage

definition initial_player_state :: player_state where
  "initial_player_state =
     \<lparr> trust = 0, guard = 0, honesty = 0, vulnerability = 0,
       activeFlags = [], memories = [], arcFlags = [] \<rparr>"

definition new_engine :: "storage \<Rightarrow> engine" where
  "new_engine st =
     \<lparr> decisions_map = [], effects_map = [], consumers_map = [], producedBy = [],
       playerState = initial_player_state, history = [], localStorage = st \<rparr>"

subsection \<open>Persistence\<close>

definition saveState :: "engine \<Rightarrow> engine" where
  "saveState eng =
     (let ps = playerState eng;
          state = \<lparr> j_stats = Some \<lparr> s_trust = Some (trust ps), s_guard = Some (guard ps),
                      s_honesty = Some (honesty ps), s_vulnerability = Some (vulnerability ps) \<rparr>,
                    j_trust = None, j_guard = None, j_honesty = None, j_vulnerability = None,
                    j_flags = Some (activeFlags ps), j_memories = Some (memories ps),
                    j_arcs = Some (arcFlags ps), j_history = Some (history eng) \<rparr>
      in if writable (localStorage eng)
         then eng\<lparr>localStorage := (localStorage eng)\<lparr>item := Some state\<rparr>\<rparr>
         else eng)"

text \<open>\<open>Object.assign(this.#playerState, state.stats)\<close> copies the properties present.\<close>

definition assign_stats :: "player_state \<Rightarrow> saved_stats \<Rightarrow> player_state" where
  "assign_stats ps st =
     ps\<lparr> trust := (case s_trust st of None \<Rightarrow> trust ps | Some v \<Rightarrow> v),
         guard := (case s_guard st of None \<Rightarrow> guard ps | Some v \<Rightarrow> v),
         honesty := (case s_honesty st of None \<Rightarrow> honesty ps | Some v \<Rightarrow> v),
         vulnerability := (case s_vulnerability st of None \<Rightarrow> vulnerability ps | Some v \<Rightarrow> v) \<rparr>"

definition restoreState :: "engine \<Rightarrow> engine" where
  "restoreState eng =
     (case item (localStorage eng) of
        None \<Rightarrow> eng
      | Some state \<Rightarrow>
          (let ps0 = playerState eng;
               ps1 = (case j_stats state of None \<Rightarrow> ps0 | Some st \<Rightarrow> assign_stats ps0 st);
               ps2 = (case j_flags state of None \<Rightarrow> ps1 | Some fs \<Rightarrow> ps1\<lparr>activeFlags := new_Set fs\<rparr>);
               ps3 = (case j_memories state of None \<Rightarrow> ps2 | Some ms \<Rightarrow> ps2\<lparr>memories := ms\<rparr>);
               ps4 = (case j_arcs state of None \<Rightarrow> ps3 | Some as \<Rightarrow> ps3\<lparr>arcFlags := new_Set as\<rparr>)
           in eng\<lparr> playerState := ps4,
                   history := (case j_history state of None \<Rightarrow> history eng | Some h \<Rightarrow> h) \<rparr>))"

subsection \<open>Initialization\<close>

text \<open>
  \<open>load\<close> after the document is fetched and parsed: it fills the four maps, then
  restores the saved state. \<open>#consumers\<close> maps an effect id to the consumers that check
  it, each with its id. \<open>#producedBy\<close> is built from the \<open>#decisions\<close> map, and a
  later producer of an effect replaces an earlier one.
\<close>

definition load :: "engine \<Rightarrow> dataset \<Rightarrow> engine" where
  "load eng ds =
     (let dm = fold (\<lambda>(decId, dec) m. AList.update decId dec m) (decisions ds) (decisions_map eng);
          em = fold (\<lambda>(effectId, eff) m. AList.update effectId eff m) (effects ds) (effects_map eng);
          cm = fold (\<lambda>(consumerId, con) m.
                  fold (\<lambda>effectId m. index_push m effectId (consumerId, con)) (checks con) m)
                 (consumers ds) (consumers_map eng);
          pb = fold (\<lambda>(decId, dec) m.
                  fold (\<lambda>opt m. fold (\<lambda>effectId m. AList.update effectId decId m) (opt_effects opt) m)
                    (options dec) m)
                 dm (producedBy eng)
      in restoreState (eng\<lparr> decisions_map := dm, effects_map := em, consumers_map := cm, producedBy := pb \<rparr>))"

subsection \<open>Ghost detection\<close>

record ghost =
  g_effectId :: string
  g_type :: string
  g_producedBy :: "string option"
  g_description :: "string option"

definition detectGhosts :: "engine \<Rightarrow> ghost list" where
  "detectGhosts eng =
     concat (map (\<lambda>(effectId, eff).
        let cs = (case map_of (consumers_map eng) effectId of None \<Rightarrow> [] | Some cs \<Rightarrow> cs)
        in if etype eff = ''stat'' then []
           else if etype eff = ''arc'' then []
           else if cs = []
             then [\<lparr> g_effectId = effectId, g_type = etype eff,
                     g_producedBy = map_of (producedBy eng) effectId,
                     g_description = description eff \<rparr>]
           else [])
       (effects_map eng))"

subsection \<open>Reading a property of the player-state object\<close>

text \<open>
  \<open>this.#playerState[name]\<close> for an arbitrary name: an own property, else a member
  inherited from \<open>Object.prototype\<close> (\<open>object_prototype_names\<close>), else undefined.
\<close>

datatype js_value =
    Number int
  | SetObject "string list"
  | ArrayObject "memory list"
  | Inherited string
  | Undefined

definition stat_names :: "string list" where
  "stat_names = [''trust'', ''guard'', ''honesty'', ''vulnerability'']"

definition collection_names :: "string list" where
  "collection_names = [''activeFlags'', ''memories'', ''arcFlags'']"

definition hasOwnProperty :: "string \<Rightarrow> bool" where
  "hasOwnProperty name = (name \<in> set stat_names \<or> name \<in> set collection_names)"

definition get_property :: "player_state \<Rightarrow> string \<Rightarrow> js_value" where
  "get_property ps name =
     (if name = ''trust'' then Number (trust ps)
      else if name = ''guard'' then Number (guard ps)
      else if name = ''honesty'' then Number (honesty ps)
      else if name = ''vulnerability'' then Number (vulnerability ps)
      else if name = ''activeFlags'' then SetObject (activeFlags ps)
      else if name = ''memories'' then ArrayObject (memories ps)
      else if name = ''arcFlags'' then SetObject (arcFlags ps)
      else if name \<in> set object_prototype_names then Inherited name
      else Undefined)"

definition set_stat :: "player_state \<Rightarrow> string \<Rightarrow> int \<Rightarrow> player_state" where
  "set_stat ps name v =
     (if name = ''trust'' then ps\<lparr>trust := v\<rparr>
      else if name = ''guard'' then ps\<lparr>guard := v\<rparr>
      else if name = ''honesty'' then ps\<lparr>honesty := v\<rparr>
      else if name = ''vulnerability'' then ps\<lparr>vulnerability := v\<rparr>
      else ps)"

definition stat_value :: "player_state \<Rightarrow> string \<Rightarrow> int" where
  "stat_value ps name =
     (if name = ''trust'' then trust ps
      else if name = ''guard'' then guard ps
      else if name = ''honesty'' then honesty ps
      else if name = ''vulnerability'' then vulnerability ps
      else 0)"

subsection \<open>Applying an effect\<close>

text \<open>What \<open>#applyEffect\<close> returns for an effect of the catalog.\<close>

datatype applied_effect =
    AppliedStat "string option" int js_value
  | AppliedFlag string
  | AppliedMemory string
  | AppliedArc string
  | AppliedUnknown string

text \<open>
  \<open>#applyEffect\<close> returns null for an id the catalog lacks, and otherwise the applied
  effect with the state changed in place. A stat effect passes the \<open>hasOwnProperty\<close>
  guard also when it names one of the three collections: the assignment then replaces
  the collection by a number, and the same \<open>makeChoice\<close> call ends in a TypeError (at
  the latest where \<open>#saveState\<close> or \<open>getState\<close> spreads the collection). Such a state
  is not a \<open>player_state\<close>: the model stops there with \<open>Overwritten\<close>.
\<close>

datatype effect_result =
    NoEffect
  | Effect applied_effect player_state
  | Overwritten string

definition applyEffect :: "(string \<times> effect) list \<Rightarrow> player_state \<Rightarrow> string \<Rightarrow> int \<Rightarrow> effect_result" where
  "applyEffect em ps effectId now =
     (case map_of em effectId of
        None \<Rightarrow> NoEffect
      | Some eff \<Rightarrow>
          if etype eff = ''stat'' then
            (let name = property_key (stat eff) in
             if hasOwnProperty name then
               (if name \<in> set collection_names then Overwritten name
                else
                  (let ps' = set_stat ps name (max 0 (min 100 (stat_value ps name + delta eff)))
                   in Effect (AppliedStat (stat eff) (delta eff) (get_property ps' name)) ps'))
             else Effect (AppliedStat (stat eff) (delta eff) (get_property ps name)) ps)
          else if etype eff = ''flag'' then
            Effect (AppliedFlag effectId)
              (ps\<lparr>activeFlags := (if effectId \<in> set (activeFlags ps) then activeFlags ps
                                     else activeFlags ps @ [effectId])\<rparr>)
          else if etype eff = ''memory'' then
            Effect (AppliedMemory effectId)
              (ps\<lparr>memories := memories ps @
                 [\<lparr> mem_id = effectId, mem_description = description eff, mem_timestamp = now \<rparr>]\<rparr>)
          else if etype eff = ''arc'' then
            Effect (AppliedArc effectId)
              (ps\<lparr>arcFlags := (if effectId \<in> set (arcFlags ps) then arcFlags ps
                                  else arcFlags ps @ [effectId])\<rparr>)
          else Effect (AppliedUnknown effectId) ps)"

subsection \<open>State queries\<close>

record state_view =
  v_trust :: int
  v_guard :: int
  v_honesty :: int
  v_vulnerability :: int
  v_flags :: "string list"
  v_memories :: "memory list"
  v_arcs :: "string list"
  v_history :: "history_entry list"

definition getState :: "engine \<Rightarrow> state_view" where
  "getState eng =
     (let ps = playerState eng in
      \<lparr> v_trust = trust ps, v_guard = guard ps, v_honesty = honesty ps,
        v_vulnerability = vulnerability ps, v_flags = activeFlags ps,
        v_memories = memories ps, v_arcs = arcFlags ps, v_history = history eng \<rparr>)"

definition hasFlag :: "engine \<Rightarrow> string \<Rightarrow> bool" where
  "hasFlag eng flagId = (flagId \<in> set (activeFlags (playerState eng)))"

text \<open>\<open>this.#playerState[statName] || 0\<close>: the number 0 and undefined are falsy.\<close>

definition getStat :: "engine \<Rightarrow> string \<Rightarrow> js_value" where
  "getStat eng statName =
     (case get_property (playerState eng) statName of
        Undefined \<Rightarrow> Number 0
      | Number n \<Rightarrow> (if n = 0 then Number 0 else Number n)
      | v \<Rightarrow> v)"

subsection \<open>Decision making\<close>

datatype choice_error = UnknownDecision string | UnknownOption string string

record choice_result =
  r_decision :: string
  r_option :: string
  r_effects :: "(string \<times> applied_effect) list"
  r_state :: state_view

text \<open>
  The loop of \<open>makeChoice\<close> over the option's effect ids. \<open>Date.now()\<close> is read from the
  environment: \<open>clock k\<close> is the reading number \<open>k\<close> of one \<open>makeChoice\<close> call. The
  history entry takes reading 0, and each memory effect that is applied takes the next.
\<close>

datatype loop_result =
    Applied "(string \<times> applied_effect) list" player_state
  | Stopped string

fun applyEffects ::
  "(string \<times> effect) list \<Rightarrow> (nat \<Rightarrow> int) \<Rightarrow> nat \<Rightarrow> string list \<Rightarrow>
   (string \<times> applied_effect) list \<Rightarrow> player_state \<Rightarrow> loop_result" where
  "applyEffects em clock k [] appliedEffects ps = Applied appliedEffects ps"
| "applyEffects em clock k (effectId # rest) appliedEffects ps =
     (case applyEffect em ps effectId (clock k) of
        NoEffect \<Rightarrow> applyEffects em clock k rest appliedEffects ps
      | Effect r ps' \<Rightarrow>
          applyEffects em clock (case r of AppliedMemory m \<Rightarrow> Suc k | _ \<Rightarrow> k) rest
            (appliedEffects @ [(effectId, r)]) ps'
      | Overwritten name \<Rightarrow> Stopped name)"

text \<open>
  The outcome of a \<open>makeChoice\<close> call: one of the two errors it throws itself, with the
  engine as the throw leaves it; the returned object, with the engine after the call; or
  \<open>Corrupted\<close> when a stat effect replaced a collection: the call throws a TypeError
  from an engine this model has no value for, and \<open>Corrupted\<close> carries the name of the
  collection and the history as the throw leaves it.
\<close>

datatype choice_outcome =
    Threw choice_error engine
  | Returned choice_result engine
  | Corrupted string "history_entry list"

definition makeChoice :: "engine \<Rightarrow> string \<Rightarrow> string \<Rightarrow> (nat \<Rightarrow> int) \<Rightarrow> choice_outcome" where
  "makeChoice eng decisionId optionId clock =
     (case map_of (decisions_map eng) decisionId of
        None \<Rightarrow> Threw (UnknownDecision decisionId) eng
      | Some dec \<Rightarrow>
          (case find (\<lambda>opt. opt_id opt = optionId) (options dec) of
             None \<Rightarrow> Threw (UnknownOption optionId decisionId) eng
           | Some opt \<Rightarrow>
               (let eng1 = eng\<lparr>history := history eng @
                              [\<lparr> h_decisionId = decisionId, h_optionId = optionId,
                                 h_timestamp = clock 0, h_tape = dec_tape dec \<rparr>]\<rparr>
                in case applyEffects (effects_map eng1) clock 1 (opt_effects opt) [] (playerState eng1) of
                     Stopped name \<Rightarrow> Corrupted name (history eng1)
                   | Applied appliedEffects ps \<Rightarrow>
                       (let eng2 = saveState (eng1\<lparr>playerState := ps\<rparr>)
                        in Returned \<lparr> r_decision = decisionId, r_option = optionId,
                                      r_effects = appliedEffects, r_state = getState eng2 \<rparr> eng2))))"

subsection \<open>Ending determination\<close>

record ending =
  end_id :: "string option"
  requires :: "string list option"
  min_trust :: "int option"
  min_guard :: "int option"
  end_description :: "string option"

text \<open>
  \<open>ending.min_trust && trust < ending.min_trust\<close>: an absent bound and the bound 0 are
  both falsy, and then the comparison is not made.
\<close>

definition below_bound :: "int option \<Rightarrow> int \<Rightarrow> bool" where
  "below_bound bound v = (case bound of None \<Rightarrow> False | Some m \<Rightarrow> m \<noteq> 0 \<and> v < m)"

definition hasRequirements :: "engine \<Rightarrow> string list \<Rightarrow> bool" where
  "hasRequirements eng rs =
     list_all (\<lambda>flag. hasFlag eng flag \<or> flag \<in> set (arcFlags (playerState eng))) rs"

text \<open>\<open>{ id: endingId, ...ending }\<close>: an \<open>id\<close> of the ending's own replaces the key.\<close>

definition ending_record :: "string \<Rightarrow> ending \<Rightarrow> ending" where
  "ending_record endingId e =
     e\<lparr>end_id := Some (case end_id e of None \<Rightarrow> endingId | Some i \<Rightarrow> i)\<rparr>"

definition default_ending :: ending where
  "default_ending =
     \<lparr> end_id = Some ''default'', requires = None, min_trust = None, min_guard = None,
       end_description = Some ''The story continues...'' \<rparr>"

text \<open>
  The loop runs over \<open>Object.entries(endings)\<close>, which the caller of the model passes:
  for an array these are its elements under the keys \<open>0\<close>, \<open>1\<close>, ... in order.
\<close>

fun determineEnding :: "engine \<Rightarrow> (string \<times> ending) list \<Rightarrow> ending" where
  "determineEnding eng [] = default_ending"
| "determineEnding eng ((endingId, e) # rest) =
     (if (case requires e of None \<Rightarrow> False | Some rs \<Rightarrow> \<not> hasRequirements eng rs)
        then determineEnding eng rest
      else if below_bound (min_trust e) (trust (playerState eng)) then determineEnding eng rest
      else if below_bound (min_guard e) (guard (playerState eng)) then determineEnding eng rest
      else ending_record endingId e)"

definition decimal_digits :: string where
  "decimal_digits = ''0123456789''"

fun string_of_nat :: "nat \<Rightarrow> string" where
  "string_of_nat n =
     (if 10 \<le> n then string_of_nat (n div 10) @ [decimal_digits ! (n mod 10)]
      else [decimal_digits ! n])"

declare string_of_nat.simps [simp del]

definition array_entries :: "'a list \<Rightarrow> (string \<times> 'a) list" where
  "array_entries xs = zip (map string_of_nat [0..<length xs]) xs"

subsection \<open>Export and import\<close>

definition stringify_view :: "state_view \<Rightarrow> json_state" where
  "stringify_view v =
     \<lparr> j_stats = None,
       j_trust = Some (v_trust v), j_guard = Some (v_guard v), j_honesty = Some (v_honesty v),
       j_vulnerability = Some (v_vulnerability v),
       j_flags = Some (v_flags v), j_memories = Some (v_memories v),
       j_arcs = Some (v_arcs v), j_history = Some (v_history v) \<rparr>"

definition exportState :: "engine \<Rightarrow> json_text" where
  "exportState eng = Json (stringify_view (getState eng))"

definition importState :: "engine \<Rightarrow> json_text \<Rightarrow> bool \<times> engine" where
  "importState eng jsonString =
     (case jsonString of
        NotJson \<Rightarrow> (False, eng)
      | Json state \<Rightarrow>
          if writable (localStorage eng)
          then (True, restoreState (eng\<lparr>localStorage := (localStorage eng)\<lparr>item := Some state\<rparr>\<rparr>))
          else (False, eng))"

section \<open>Notions the properties are stated with\<close>

text \<open>
  The decisions that produce an effect id, one entry per place where an option lists
  the id, and likewise the consumers whose checks hold it.
\<close>

definition producers_of :: "dataset \<Rightarrow> string \<Rightarrow> string list" where
  "producers_of ds e =
     [decId. (decId, dec) \<leftarrow> decisions ds, opt \<leftarrow> options dec, effectId \<leftarrow> opt_effects opt, effectId = e]"

definition consumersOf :: "dataset \<Rightarrow> string \<Rightarrow> string list" where
  "consumersOf ds e =
     [consumerId. (consumerId, con) \<leftarrow> consumers ds, effectId \<leftarrow> checks con, effectId = e]"

text \<open>The effect ids of the report's \<open>GHOST_EFFECT\<close> warnings, and its \<open>BACKWARD_DEPENDENCY\<close> errors.\<close>

definition ghost_effect_ids :: "report \<Rightarrow> string list" where
  "ghost_effect_ids r = concat (map (\<lambda>f. case f of GHOST_EFFECT e ps \<Rightarrow> [e] | _ \<Rightarrow> []) (warnings r))"

definition backward_dependencies :: "report \<Rightarrow> finding list" where
  "backward_dependencies r =
     filter (\<lambda>f. case f of BACKWARD_DEPENDENCY c p e \<Rightarrow> True | _ \<Rightarrow> False) (errors r)"

text \<open>
  The tape names are ordinary keys of the \<open>tapeIndex\<close> object: the ordering does not list
  \<open>__proto__\<close>, and a consumer whose tape is not in the ordering is not in a tape named
  like a member of \<open>Object.prototype\<close>.
\<close>

definition ordinary_tape_names :: "dataset \<Rightarrow> bool" where
  "ordinary_tape_names ds =
     (''__proto__'' \<notin> set (tapes ds)
      \<and> list_all (\<lambda>entry. con_tape (snd entry) \<in> set (tapes ds)
                            \<or> con_tape (snd entry) \<notin> set object_prototype_names) (consumers ds))"

text \<open>Tape \<open>p\<close> stands strictly after tape \<open>c\<close> in the ordering \<open>ts\<close>.\<close>

fun strictly_after :: "string list \<Rightarrow> string \<Rightarrow> string \<Rightarrow> bool" where
  "strictly_after [] p c = False"
| "strictly_after (t # ts) p c = (if t = c then p \<in> set ts else strictly_after ts p c)"

text \<open>
  A candidate ending matches, in the words of the specification: every id of its
  \<open>requires\<close> list, if it has one, is an active flag or an active arc flag, trust is at
  least \<open>min_trust\<close> when that is given, and guard at least \<open>min_guard\<close> when that is
  given.
\<close>

definition candidate_matches :: "engine \<Rightarrow> ending \<Rightarrow> bool" where
  "candidate_matches eng e =
     (list_all (\<lambda>r. r \<in> set (activeFlags (playerState eng)) \<or> r \<in> set (arcFlags (playerState eng)))
        (case requires e of None \<Rightarrow> [] | Some rs \<Rightarrow> rs)
      \<and> (case min_trust e of None \<Rightarrow> True | Some m \<Rightarrow> m \<le> trust (playerState eng))
      \<and> (case min_guard e of None \<Rightarrow> True | Some m \<Rightarrow> m \<le> guard (playerState eng)))"

text \<open>
  The catalog's stat effects name no collection of the player state (the data model has
  a stat effect name a numeric stat), and: an effect id is in the catalog.
\<close>

definition no_collection_stat :: "(string \<times> effect) list \<Rightarrow> bool" where
  "no_collection_stat em =
     list_all (\<lambda>entry. \<not> (etype (snd entry) = ''stat''
                           \<and> property_key (stat (snd entry)) \<in> set collection_names)) em"

definition in_catalog :: "(string \<times> effect) list \<Rightarrow> string \<Rightarrow> bool" where
  "in_catalog em effectId = (map_of em effectId \<noteq> None)"

text \<open>The effect ids \<open>detectGhosts\<close> returns.\<close>

definition runtime_ghost_ids :: "engine \<Rightarrow> string list" where
  "runtime_ghost_ids eng = map g_effectId (detectGhosts eng)"

text \<open>The four stats lie in 0..100, as the data model has them.\<close>

definition stats_in_range :: "player_state \<Rightarrow> bool" where
  "stats_in_range ps =
     (0 \<le> trust ps \<and> trust ps \<le> 100 \<and> 0 \<le> guard ps \<and> guard ps \<le> 100
      \<and> 0 \<le> honesty ps \<and> honesty ps \<le> 100 \<and> 0 \<le> vulnerability ps \<and> vulnerability ps \<le> 100)"

section \<open>Example datasets and engines\<close>

definition two_options_same_effects :: dataset where
  "two_options_same_effects =
     \<lparr> decisions =
         [(''d1'', \<lparr> dec_tape = ''tape1'',
                    options = [\<lparr> opt_id = ''a'', opt_effects = [''e1'', ''e2'', ''e1''] \<rparr>,
                               \<lparr> opt_id = ''b'', opt_effects = [''e2'', ''e1''] \<rparr>] \<rparr>)],
       effects =
         [(''e1'', \<lparr> etype = ''flag'', stat = None, delta = 0, description = None, consumed_by = [] \<rparr>),
          (''e2'', \<lparr> etype = ''memory'', stat = None, delta = 0, description = None, consumed_by = [] \<rparr>)],
       consumers = [(''c1'', \<lparr> con_tape = ''tape1'', checks = [''e2''] \<rparr>)],
       tapes = [''tape1''] \<rparr>"

definition inline_override :: dataset where
  "inline_override =
     \<lparr> decisions =
         [(''d1'', \<lparr> dec_tape = ''tape1'',
                    options = [\<lparr> opt_id = ''a'', opt_effects = [''e_x''] \<rparr>] \<rparr>)],
       effects =
         [(''e_x'', \<lparr> etype = ''flag'', stat = None, delta = 0, description = None,
                     consumed_by = [''tape3_scene''] \<rparr>)],
       consumers = [],
       tapes = [''tape1''] \<rparr>"

definition backward_scenario :: dataset where
  "backward_scenario =
     \<lparr> decisions =
         [(''d1'', \<lparr> dec_tape = ''tape2'',
                    options = [\<lparr> opt_id = ''a'', opt_effects = [''e_foo''] \<rparr>] \<rparr>)],
       effects =
         [(''e_foo'', \<lparr> etype = ''flag'', stat = None, delta = 0, description = None, consumed_by = [] \<rparr>)],
       consumers = [(''c1'', \<lparr> con_tape = ''tape1'', checks = [''e_foo''] \<rparr>)],
       tapes = [''tape1'', ''tape2''] \<rparr>"

definition backward_two_options :: dataset where
  "backward_two_options =
     \<lparr> decisions =
         [(''d1'', \<lparr> dec_tape = ''tape2'',
                    options = [\<lparr> opt_id = ''a'', opt_effects = [''e_foo''] \<rparr>,
                               \<lparr> opt_id = ''b'', opt_effects = [''e_foo'', ''e_bar''] \<rparr>] \<rparr>)],
       effects =
         [(''e_foo'', \<lparr> etype = ''flag'', stat = None, delta = 0, description = None, consumed_by = [] \<rparr>),
          (''e_bar'', \<lparr> etype = ''stat'', stat = Some ''trust'', delta = 5, description = None, consumed_by = [] \<rparr>)],
       consumers = [(''c1'', \<lparr> con_tape = ''tape1'', checks = [''e_foo''] \<rparr>)],
       tapes = [''tape1'', ''tape2''] \<rparr>"

definition ghost_views_differ :: dataset where
  "ghost_views_differ =
     \<lparr> decisions =
         [(''d1'', \<lparr> dec_tape = ''tape1'',
                    options = [\<lparr> opt_id = ''a'', opt_effects = [''e_inline'', ''e_undefined''] \<rparr>] \<rparr>)],
       effects =
         [(''e_unproduced'', \<lparr> etype = ''flag'', stat = None, delta = 0, description = None, consumed_by = [] \<rparr>),
          (''e_inline'', \<lparr> etype = ''flag'', stat = None, delta = 0, description = None,
                     consumed_by = [''tape3_scene''] \<rparr>)],
       consumers = [],
       tapes = [''tape1''] \<rparr>"

definition trust_scenario :: dataset where
  "trust_scenario =
     \<lparr> decisions =
         [(''d1'', \<lparr> dec_tape = ''tape1'',
                    options = [\<lparr> opt_id = ''optA'', opt_effects = [''flag_seen'', ''e_missing'', ''stat_trust_+5''] \<rparr>,
                               \<lparr> opt_id = ''optB'', opt_effects = [] \<rparr>] \<rparr>)],
       effects =
         [(''flag_seen'', \<lparr> etype = ''flag'', stat = None, delta = 0, description = None, consumed_by = [] \<rparr>),
          (''stat_trust_+5'', \<lparr> etype = ''stat'', stat = Some ''trust'', delta = 5, description = None, consumed_by = [] \<rparr>)],
       consumers = [(''c1'', \<lparr> con_tape = ''tape1'', checks = [''flag_seen''] \<rparr>)],
       tapes = [''tape1''] \<rparr>"

definition clamp_catalog :: "(string \<times> effect) list" where
  "clamp_catalog =
     [(''e_minus'', \<lparr> etype = ''stat'', stat = Some ''trust'', delta = - 30, description = None, consumed_by = [] \<rparr>),
      (''e_plus'', \<lparr> etype = ''stat'', stat = Some ''guard'', delta = 150, description = None, consumed_by = [] \<rparr>)]"

definition browser_storage :: storage where
  "browser_storage = \<lparr> item = None, writable = True \<rparr>"

definition loaded_engine :: engine where
  "loaded_engine = load (new_engine browser_storage) trust_scenario"

text \<open>The engine after \<open>makeChoice("d1", "optA")\<close>, every clock reading being 1000.\<close>

definition played_engine :: engine where
  "played_engine =
     (case makeChoice loaded_engine ''d1'' ''optA'' (\<lambda>k. 1000) of
        Returned r eng \<Rightarrow> eng
      | _ \<Rightarrow> loaded_engine)"

definition ending_A :: ending where
  "ending_A = \<lparr> end_id = Some ''A'', requires = None, min_trust = Some 20, min_guard = None, end_description = None \<rparr>"

definition ending_B :: ending where
  "ending_B = \<lparr> end_id = Some ''B'', requires = Some [''e_x''], min_trust = None, min_guard = None, end_description = None \<rparr>"

definition ending_default :: ending where
  "ending_default = \<lparr> end_id = Some ''default'', requires = None, min_trust = None, min_guard = None, end_description = None \<rparr>"

definition trust_25 :: engine where
  "trust_25 = (new_engine browser_storage)\<lparr>playerState := initial_player_state\<lparr>trust := 25\<rparr>\<rparr>"

text \<open>Tapes named like members of \<open>Object.prototype\<close>.\<close>

definition proto_tapes :: dataset where
  "proto_tapes =
     \<lparr> decisions =
         [(''d1'', \<lparr> dec_tape = ''tape2'',
                    options = [\<lparr> opt_id = ''a'', opt_effects = [''e_foo''] \<rparr>] \<rparr>)],
       effects =
         [(''e_foo'', \<lparr> etype = ''flag'', stat = None, delta = 0, description = None, consumed_by = [] \<rparr>)],
       consumers = [(''c1'', \<lparr> con_tape = ''__proto__'', checks = [''e_foo''] \<rparr>)],
       tapes = [''__proto__'', ''tape2''] \<rparr>"

definition inherited_tapes :: dataset where
  "inherited_tapes =
     \<lparr> decisions =
         [(''d1'', \<lparr> dec_tape = ''toString'',
                    options = [\<lparr> opt_id = ''a'', opt_effects = [''e_foo''] \<rparr>] \<rparr>)],
       effects =
         [(''e_foo'', \<lparr> etype = ''flag'', stat = None, delta = 0, description = None, consumed_by = [] \<rparr>)],
       consumers = [(''c1'', \<lparr> con_tape = ''constructor'', checks = [''e_foo''] \<rparr>),
                    (''c2'', \<lparr> con_tape = ''tape9'', checks = [''e_foo''] \<rparr>)],
       tapes = [] \<rparr>"

text \<open>A stat effect that names a collection of the player state.\<close>

definition collection_stat_scenario :: dataset where
  "collection_stat_scenario =
     \<lparr> decisions =
         [(''d1'', \<lparr> dec_tape = ''tape1'',
                    options = [\<lparr> opt_id = ''a'', opt_effects = [''e_bad''] \<rparr>] \<rparr>)],
       effects =
         [(''e_bad'', \<lparr> etype = ''stat'', stat = Some ''activeFlags'', delta = 1, description = None, consumed_by = [] \<rparr>)],
       consumers = [],
       tapes = [''tape1''] \<rparr>"

definition collection_stat_engine :: engine where
  "collection_stat_engine = load (new_engine browser_storage) collection_stat_scenario"

text \<open>A saved document with a negative stat, the engine that imported it, and an ending with bound 0.\<close>

definition negative_trust_document :: json_state where
  "negative_trust_document =
     \<lparr> j_stats = Some \<lparr> s_trust = Some (- 5), s_guard = None, s_honesty = None, s_vulnerability = None \<rparr>,
       j_trust = None, j_guard = None, j_honesty = None, j_vulnerability = None,
       j_flags = None, j_memories = None, j_arcs = None, j_history = None \<rparr>"

definition negative_trust_engine :: engine where
  "negative_trust_engine = snd (importState (new_engine browser_storage) (Json negative_trust_document))"

definition ending_zero_bound :: ending where
  "ending_zero_bound = \<lparr> end_id = Some ''A'', requires = None, min_trust = Some 0, min_guard = None, end_description = None \<rparr>"

section \<open>Properties of the indexes\<close>

lemma new_Set_fold:
  "set (fold (\<lambda>x s. if x \<in> set s then s else s @ [x]) xs acc) = set acc \<union> set xs
   \<and> (distinct acc \<longrightarrow> distinct (fold (\<lambda>x s. if x \<in> set s then s else s @ [x]) xs acc))"
  by (induction xs arbitrary: acc) auto

lemma set_new_Set: "set (new_Set xs) = set xs"
  using new_Set_fold [of xs "[]"] by (simp add: new_Set_def)

lemma distinct_new_Set: "distinct (new_Set xs)"
  using new_Set_fold [of xs "[]"] by (simp add: new_Set_def)

lemma setsEqual_distinct:
  assumes "distinct a" and "distinct b"
  shows "setsEqual a b \<longleftrightarrow> set a = set b"
proof
  assume "setsEqual a b"
  then have len: "length a = length b" and sub: "set a \<subseteq> set b"
    by (auto simp: setsEqual_def list_all_iff split: if_splits)
  from len assms have "card (set a) = card (set b)"
    by (simp add: distinct_card)
  with sub show "set a = set b"
    by (simp add: card_subset_eq)
next
  assume eq: "set a = set b"
  with assms have "length a = length b"
    by (metis distinct_card)
  with eq show "setsEqual a b"
    by (simp add: setsEqual_def list_all_iff)
qed

lemma setsEqual_new_Set: "setsEqual (new_Set xs) (new_Set ys) \<longleftrightarrow> set xs = set ys"
  by (simp add: setsEqual_distinct distinct_new_Set set_new_Set)

section \<open>Check 6: ghost decisions\<close>

lemma list_all_enumerate:
  "list_all P (enumerate n xs) \<longleftrightarrow> (\<forall>i < length xs. P (n + i, xs ! i))"
  by (auto simp: list_all_iff in_set_enumerate_eq all_set_conv_all_nth nth_enumerate_eq)

lemma allIdentical_iff:
  assumes "arr = map new_Set ys" and "ys \<noteq> []"
  shows "allIdentical arr \<longleftrightarrow> (\<forall>a \<in> set ys. \<forall>b \<in> set ys. set a = set b)"
proof -
  have "allIdentical arr \<longleftrightarrow> (\<forall>i < length ys. i = 0 \<or> set (ys ! i) = set (ys ! 0))"
    using assms by (auto simp: allIdentical_def list_all_enumerate setsEqual_new_Set)
  also have "\<dots> \<longleftrightarrow> (\<forall>a \<in> set ys. set a = set (ys ! 0))"
    by (auto simp: all_set_conv_all_nth)
  also have "\<dots> \<longleftrightarrow> (\<forall>a \<in> set ys. \<forall>b \<in> set ys. set a = set b)"
    using assms(2) by (metis length_greater_0_conv nth_mem)
  finally show ?thesis .
qed

lemma ghost_decision_check_iff:
  "GHOST_DECISION d \<in> set (ghost_decision_check (decId, dec)) \<longleftrightarrow>
     d = decId \<and> 2 \<le> length (options dec) \<and>
     (\<forall>a \<in> set (options dec). \<forall>b \<in> set (options dec). set (opt_effects a) = set (opt_effects b))"
proof (cases "2 \<le> length (options dec)")
  case False
  then show ?thesis by (simp add: ghost_decision_check_def Let_def)
next
  case True
  then have ne: "map opt_effects (options dec) \<noteq> []" by auto
  have "map (\<lambda>opt. new_Set (opt_effects opt)) (options dec) = map new_Set (map opt_effects (options dec))"
    by simp
  from allIdentical_iff [OF this ne] True show ?thesis
    by (auto simp: ghost_decision_check_def Let_def)
qed

lemma ghost_decision_only_check6:
  "GHOST_DECISION d \<in> set (errors (validate ds)) \<longleftrightarrow> GHOST_DECISION d \<in> set (ghost_decision_errors ds)"
  by (auto simp: validate_def broken_effect_references_def broken_consumer_references_def
      backward_dependency_errors_def tape_order_check_def Let_def split: if_splits)

text \<open>
  Claim C1. For a decision \<open>dec\<close> stored under \<open>decId\<close> in a dataset whose decision
  ids are distinct, the validator's errors hold \<open>GHOST_DECISION decId\<close> if and only if
  the decision has at least two options and the effect ids of any two of its options
  form the same set (duplicates within an option collapsed). So a decision with fewer
  than two options is never flagged.
\<close>

theorem ghost_decision_flagged_iff:
  assumes "distinct (map fst (decisions ds))" and "(decId, dec) \<in> set (decisions ds)"
  shows "GHOST_DECISION decId \<in> set (errors (validate ds)) \<longleftrightarrow>
     2 \<le> length (options dec) \<and>
     (\<forall>a \<in> set (options dec). \<forall>b \<in> set (options dec). set (opt_effects a) = set (opt_effects b))"
proof -
  have "GHOST_DECISION decId \<in> set (ghost_decision_errors ds) \<longleftrightarrow>
      (\<exists>dec'. (decId, dec') \<in> set (decisions ds) \<and> GHOST_DECISION decId \<in> set (ghost_decision_check (decId, dec')))"
  proof
    assume "GHOST_DECISION decId \<in> set (ghost_decision_errors ds)"
    then obtain d' dec' where in': "(d', dec') \<in> set (decisions ds)"
      and g: "GHOST_DECISION decId \<in> set (ghost_decision_check (d', dec'))"
      by (auto simp: ghost_decision_errors_def)
    from g have "d' = decId" by (simp add: ghost_decision_check_iff)
    with in' g show "\<exists>dec'. (decId, dec') \<in> set (decisions ds) \<and> GHOST_DECISION decId \<in> set (ghost_decision_check (decId, dec'))"
      by blast
  next
    assume "\<exists>dec'. (decId, dec') \<in> set (decisions ds) \<and> GHOST_DECISION decId \<in> set (ghost_decision_check (decId, dec'))"
    then show "GHOST_DECISION decId \<in> set (ghost_decision_errors ds)"
      unfolding ghost_decision_errors_def by force
  qed
  also have "\<dots> \<longleftrightarrow> GHOST_DECISION decId \<in> set (ghost_decision_check (decId, dec))"
    using assms by (auto dest: eq_key_imp_eq_value)
  finally show ?thesis
    by (simp add: ghost_decision_only_check6 ghost_decision_check_iff)
qed

theorem ghost_decision_flagged_iff_witness:
  "distinct (map fst (decisions two_options_same_effects))
   \<and> (''d1'', \<lparr> dec_tape = ''tape1'',
                 options = [\<lparr> opt_id = ''a'', opt_effects = [''e1'', ''e2'', ''e1''] \<rparr>,
                            \<lparr> opt_id = ''b'', opt_effects = [''e2'', ''e1''] \<rparr>] \<rparr>)
        \<in> set (decisions two_options_same_effects)
   \<and> GHOST_DECISION ''d1'' \<in> set (errors (validate two_options_same_effects))"
  using ghost_decision_flagged_iff [of two_options_same_effects "''d1''"
      "\<lparr> dec_tape = ''tape1'',
         options = [\<lparr> opt_id = ''a'', opt_effects = [''e1'', ''e2'', ''e1''] \<rparr>,
                    \<lparr> opt_id = ''b'', opt_effects = [''e2'', ''e1''] \<rparr>] \<rparr>"]
  by (simp add: two_options_same_effects_def insert_commute)

section \<open>The indexes as lists of occurrences\<close>

lemma map_of_index_push:
  "map_of (index_push m k v) e =
     (if e = k then Some ((case map_of m k of None \<Rightarrow> [] | Some vs \<Rightarrow> vs) @ [v]) else map_of m e)"
  by (simp add: index_push_def update_conv' split: option.splits)

lemma map_of_fold_index_push:
  "map_of (fold (\<lambda>(k, v) m. index_push m k v) ps m) e =
     (let new = map snd (filter (\<lambda>p. fst p = e) ps) in
      case map_of m e of
        None \<Rightarrow> (if new = [] then None else Some new)
      | Some vs \<Rightarrow> Some (vs @ new))"
proof (induction ps arbitrary: m)
  case Nil
  then show ?case by (simp split: option.splits)
next
  case (Cons p ps)
  obtain k v where p: "p = (k, v)" by (cases p)
  show ?case
    unfolding p by (simp add: Cons.IH map_of_index_push Let_def split: option.splits)
qed

lemma fold_effects_pairs:
  "fold (\<lambda>effectId m. index_push m effectId decId) es m =
   fold (\<lambda>(k, v) m. index_push m k v) (map (\<lambda>effectId. (effectId, decId)) es) m"
  by (induction es arbitrary: m) auto

lemma fold_options_pairs:
  "fold (\<lambda>opt m. fold (\<lambda>effectId m. index_push m effectId decId) (opt_effects opt) m) os m =
   fold (\<lambda>(k, v) m. index_push m k v)
     [(effectId, decId). opt \<leftarrow> os, effectId \<leftarrow> opt_effects opt] m"
  by (induction os arbitrary: m) (auto simp: fold_effects_pairs)

lemma fold_decisions_pairs:
  "fold (\<lambda>(decId, dec) m.
      fold (\<lambda>opt m. fold (\<lambda>effectId m. index_push m effectId decId) (opt_effects opt) m)
        (options dec) m) decs m =
   fold (\<lambda>(k, v) m. index_push m k v)
     [(effectId, decId). (decId, dec) \<leftarrow> decs, opt \<leftarrow> options dec, effectId \<leftarrow> opt_effects opt] m"
proof (induction decs arbitrary: m)
  case Nil
  then show ?case by simp
next
  case (Cons d decs)
  obtain decId dec where d: "d = (decId, dec)" by (cases d)
  show ?case
    unfolding d using fold_options_pairs [of decId "options dec" m]
    by (simp add: Cons.IH)
qed

lemma occurrences_effects:
  "map snd (filter (\<lambda>p. fst p = e) (map (\<lambda>effectId. (effectId, decId)) es)) =
   concat (map (\<lambda>effectId. if effectId = e then [decId] else []) es)"
  by (induction es) auto

lemma occurrences_options:
  "map snd (filter (\<lambda>p. fst p = e) [(effectId, decId). opt \<leftarrow> os, effectId \<leftarrow> opt_effects opt]) =
   [decId. opt \<leftarrow> os, effectId \<leftarrow> opt_effects opt, effectId = e]"
  by (induction os) (auto simp: occurrences_effects)

lemma occurrences_decisions:
  "map snd (filter (\<lambda>p. fst p = e)
      [(effectId, decId). (decId, dec) \<leftarrow> decs, opt \<leftarrow> options dec, effectId \<leftarrow> opt_effects opt]) =
   [decId. (decId, dec) \<leftarrow> decs, opt \<leftarrow> options dec, effectId \<leftarrow> opt_effects opt, effectId = e]"
proof (induction decs)
  case Nil
  then show ?case by simp
next
  case (Cons d decs)
  obtain decId dec where d: "d = (decId, dec)" by (cases d)
  show ?case
    unfolding d using occurrences_options [of e decId "options dec"]
    by (simp add: Cons.IH)
qed

lemma map_of_producedEffects:
  "map_of (producedEffects ds) e = (if producers_of ds e = [] then None else Some (producers_of ds e))"
  unfolding producedEffects_def fold_decisions_pairs map_of_fold_index_push
  by (simp add: occurrences_decisions producers_of_def Let_def)

lemma fold_checks_pairs:
  "fold (\<lambda>effectId m. index_push m effectId consumerId) es m =
   fold (\<lambda>(k, v) m. index_push m k v) (map (\<lambda>effectId. (effectId, consumerId)) es) m"
  by (induction es arbitrary: m) auto

lemma fold_consumers_pairs:
  "fold (\<lambda>(consumerId, con) m.
      fold (\<lambda>effectId m. index_push m effectId consumerId) (checks con) m) cs m =
   fold (\<lambda>(k, v) m. index_push m k v)
     [(effectId, consumerId). (consumerId, con) \<leftarrow> cs, effectId \<leftarrow> checks con] m"
proof (induction cs arbitrary: m)
  case Nil
  then show ?case by simp
next
  case (Cons c cs)
  obtain consumerId con where c: "c = (consumerId, con)" by (cases c)
  show ?case
    unfolding c using fold_checks_pairs [of consumerId "checks con" m]
    by (simp add: Cons.IH)
qed

lemma occurrences_consumers:
  "map snd (filter (\<lambda>p. fst p = e)
      [(effectId, consumerId). (consumerId, con) \<leftarrow> cs, effectId \<leftarrow> checks con]) =
   [consumerId. (consumerId, con) \<leftarrow> cs, effectId \<leftarrow> checks con, effectId = e]"
proof (induction cs)
  case Nil
  then show ?case by simp
next
  case (Cons c cs)
  obtain consumerId con where c: "c = (consumerId, con)" by (cases c)
  show ?case
    unfolding c using occurrences_effects [of e consumerId "checks con"]
    by (simp add: Cons.IH)
qed

lemma map_of_consumedEffects:
  "map_of (consumedEffects ds) e = (if consumersOf ds e = [] then None else Some (consumersOf ds e))"
  unfolding consumedEffects_def fold_consumers_pairs map_of_fold_index_push
  by (simp add: occurrences_consumers consumersOf_def Let_def)

lemma set_producers_of:
  "set (producers_of ds e) =
     {decId. \<exists>dec opt. (decId, dec) \<in> set (decisions ds) \<and> opt \<in> set (options dec) \<and> e \<in> set (opt_effects opt)}"
  unfolding producers_of_def by force

lemma set_consumersOf:
  "set (consumersOf ds e) = {consumerId. \<exists>con. (consumerId, con) \<in> set (consumers ds) \<and> e \<in> set (checks con)}"
  unfolding consumersOf_def by force

lemma producers_of_empty_iff:
  "producers_of ds e = [] \<longleftrightarrow>
     \<not> (\<exists>decId dec opt. (decId, dec) \<in> set (decisions ds) \<and> opt \<in> set (options dec) \<and> e \<in> set (opt_effects opt))"
proof -
  have "producers_of ds e = [] \<longleftrightarrow> set (producers_of ds e) = {}" by simp
  then show ?thesis unfolding set_producers_of by blast
qed

lemma consumersOf_empty_iff:
  "consumersOf ds e = [] \<longleftrightarrow> \<not> (\<exists>consumerId con. (consumerId, con) \<in> set (consumers ds) \<and> e \<in> set (checks con))"
proof -
  have "consumersOf ds e = [] \<longleftrightarrow> set (consumersOf ds e) = {}" by simp
  then show ?thesis unfolding set_consumersOf by blast
qed

section \<open>Check 4: ghost effects\<close>

lemma ghost_effect_check_ids:
  "concat (map (\<lambda>f. case f of GHOST_EFFECT e ps \<Rightarrow> [e] | _ \<Rightarrow> []) (ghost_effect_check ds entry)) =
     (if \<not> type_is (map_of (effects ds) (fst entry)) ''stat''
         \<and> \<not> type_is (map_of (effects ds) (fst entry)) ''arc''
         \<and> consumersOf ds (fst entry) = []
         \<and> inline_consumed_by (map_of (effects ds) (fst entry)) = []
      then [fst entry] else [])"
  by (simp add: ghost_effect_check_def Let_def map_of_consumedEffects)

lemma concat_map_concat_map:
  "concat (map f (concat (map g xs))) = concat (map (\<lambda>x. concat (map f (g x))) xs)"
  by (induction xs) auto

lemma ghost_effect_ids_validate:
  "ghost_effect_ids (validate ds) =
     concat (map (\<lambda>entry. concat (map (\<lambda>f. case f of GHOST_EFFECT e ps \<Rightarrow> [e] | _ \<Rightarrow> [])
        (ghost_effect_check ds entry))) (producedEffects ds))"
proof -
  have a: "concat (map (\<lambda>f. case f of GHOST_EFFECT e ps \<Rightarrow> [e] | _ \<Rightarrow> []) (unused_effect_warnings ds)) = []"
    by (auto simp: unused_effect_warnings_def)
  have b: "concat (map (\<lambda>f. case f of GHOST_EFFECT e ps \<Rightarrow> [e] | _ \<Rightarrow> []) (unknown_tape_warnings ds)) = []"
    by (auto simp: unknown_tape_warnings_def tape_order_check_def Let_def split: if_splits)
  show ?thesis
    by (simp add: ghost_effect_ids_def validate_def a b ghost_effect_warnings_def concat_map_concat_map)
qed

lemma produced_keys: "fst ` set (producedEffects ds) = {e. producers_of ds e \<noteq> []}"
proof -
  have "\<And>e. e \<in> fst ` set (producedEffects ds) \<longleftrightarrow> producers_of ds e \<noteq> []"
    using map_of_producedEffects [of ds] by (metis map_of_eq_None_iff option.distinct(1))
  then show ?thesis by blast
qed

lemma set_ghost_effect_ids:
  "set (ghost_effect_ids (validate ds)) =
     {e. producers_of ds e \<noteq> []
         \<and> \<not> type_is (map_of (effects ds) e) ''stat''
         \<and> \<not> type_is (map_of (effects ds) e) ''arc''
         \<and> consumersOf ds e = []
         \<and> inline_consumed_by (map_of (effects ds) e) = []}"
  using produced_keys [of ds]
  by (auto simp: ghost_effect_ids_validate ghost_effect_check_ids split: if_splits) force+

text \<open>
  Claim C3, as the code has it. For an effect id \<open>e\<close> that some decision produces and
  whose catalog entry, if it has one, is neither of type \<open>stat\<close> nor of type \<open>arc\<close>,
  the validator warns \<open>GHOST_EFFECT\<close> for \<open>e\<close> if and only if no consumer's checks
  hold \<open>e\<close> and the entry carries no non-empty inline \<open>consumed_by\<close> list.
\<close>

theorem ghost_effect_flagged_iff:
  assumes "producers_of ds e \<noteq> []"
    and "\<not> type_is (map_of (effects ds) e) ''stat''"
    and "\<not> type_is (map_of (effects ds) e) ''arc''"
  shows "e \<in> set (ghost_effect_ids (validate ds)) \<longleftrightarrow>
           consumersOf ds e = [] \<and> inline_consumed_by (map_of (effects ds) e) = []"
  using assms by (simp add: set_ghost_effect_ids)

theorem ghost_effect_flagged_iff_witness:
  "producers_of two_options_same_effects ''e1'' \<noteq> []
   \<and> \<not> type_is (map_of (effects two_options_same_effects) ''e1'') ''stat''
   \<and> \<not> type_is (map_of (effects two_options_same_effects) ''e1'') ''arc''
   \<and> ''e1'' \<in> set (ghost_effect_ids (validate two_options_same_effects))
   \<and> ''e2'' \<notin> set (ghost_effect_ids (validate two_options_same_effects))"
  using ghost_effect_flagged_iff [of two_options_same_effects "''e1''"]
    ghost_effect_flagged_iff [of two_options_same_effects "''e2''"]
  by (simp add: two_options_same_effects_def producers_of_def consumersOf_def type_is_def
      inline_consumed_by_def)

text \<open>
  Without the inline override the equivalence fails: \<open>e_x\<close> is a produced flag effect
  that no consumer checks, and its \<open>consumed_by\<close> list keeps the warning away.
\<close>

theorem ghost_effect_inline_override_counterexample:
  "producers_of inline_override ''e_x'' = [''d1'']
   \<and> \<not> type_is (map_of (effects inline_override) ''e_x'') ''stat''
   \<and> \<not> type_is (map_of (effects inline_override) ''e_x'') ''arc''
   \<and> consumersOf inline_override ''e_x'' = []
   \<and> ''e_x'' \<notin> set (ghost_effect_ids (validate inline_override))"
  by code_simp

section \<open>Check 7: tape ordering\<close>

lemma fold_tape_notin:
  "t \<notin> set ts \<Longrightarrow> fold (\<lambda>(i, t) m. m(t \<mapsto> i)) (enumerate n ts) m t = m t"
  by (induction ts arbitrary: n m) auto

lemma fold_tape_nth:
  "distinct ts \<Longrightarrow> i < length ts \<Longrightarrow>
     fold (\<lambda>(i, t) m. m(t \<mapsto> i)) (enumerate n ts) m (ts ! i) = Some (n + i)"
proof (induction ts arbitrary: n m i)
  case Nil
  then show ?case by simp
next
  case (Cons a ts)
  show ?case
  proof (cases i)
    case 0
    from Cons.prems have "fold (\<lambda>(i, t) m. m(t \<mapsto> i)) (enumerate (Suc n) ts) (m(a \<mapsto> n)) a = Some n"
      using fold_tape_notin [of a ts "Suc n" "m(a \<mapsto> n)"] by simp
    with 0 show ?thesis by (simp del: fun_upd_apply)
  next
    case (Suc j)
    with Cons.prems Cons.IH [of j "Suc n" "m(a \<mapsto> n)"] show ?thesis by (simp del: fun_upd_apply)
  qed
qed

lemma fold_tape_own:
  "''__proto__'' \<notin> set ts \<Longrightarrow>
     fold (\<lambda>(i, t) m. if t = ''__proto__'' then m else m(t \<mapsto> i)) (enumerate n ts) m =
     fold (\<lambda>(i, t) m. m(t \<mapsto> i)) (enumerate n ts) m"
  by (induction ts arbitrary: n m) auto

lemma tapeIndex_distinct:
  assumes "distinct (tapes ds)" and "''__proto__'' \<notin> set (tapes ds)"
  shows "tapeIndex ds t = Some i \<longleftrightarrow> i < length (tapes ds) \<and> tapes ds ! i = t"
proof (cases "t \<in> set (tapes ds)")
  case False
  then have "tapeIndex ds t = None"
    by (simp add: tapeIndex_def fold_tape_own [OF assms(2)] fold_tape_notin)
  with False show ?thesis by auto
next
  case True
  then obtain j where j: "j < length (tapes ds)" "tapes ds ! j = t"
    by (auto simp: in_set_conv_nth)
  with assms have "tapeIndex ds t = Some j"
    using fold_tape_nth [of "tapes ds" j 0 Map.empty]
    by (simp add: tapeIndex_def fold_tape_own [OF assms(2)])
  with j assms show ?thesis
    by (auto simp: nth_eq_iff_index_eq)
qed

lemma strictly_after_nth:
  "distinct ts \<Longrightarrow> strictly_after ts p c \<longleftrightarrow>
     (\<exists>i j. i < j \<and> j < length ts \<and> ts ! i = c \<and> ts ! j = p)"
proof (induction ts)
  case Nil
  then show ?case by simp
next
  case (Cons a ts)
  show ?case
  proof (cases "a = c")
    case True
    with Cons.prems have notin: "c \<notin> set ts" by simp
    have "p \<in> set ts \<longleftrightarrow> (\<exists>i j. i < j \<and> j < length (a # ts) \<and> (a # ts) ! i = c \<and> (a # ts) ! j = p)"
    proof
      assume "p \<in> set ts"
      then obtain k where "k < length ts" "ts ! k = p" by (auto simp: in_set_conv_nth)
      with True have "0 < Suc k \<and> Suc k < length (a # ts) \<and> (a # ts) ! 0 = c \<and> (a # ts) ! Suc k = p"
        by simp
      then show "\<exists>i j. i < j \<and> j < length (a # ts) \<and> (a # ts) ! i = c \<and> (a # ts) ! j = p"
        by blast
    next
      assume "\<exists>i j. i < j \<and> j < length (a # ts) \<and> (a # ts) ! i = c \<and> (a # ts) ! j = p"
      then obtain i j where ij: "i < j" "j < length (a # ts)" "(a # ts) ! i = c" "(a # ts) ! j = p"
        by blast
      then obtain j' where j': "j = Suc j'" by (cases j) auto
      with ij show "p \<in> set ts" by auto
    qed
    with True show ?thesis by simp
  next
    case False
    from Cons.prems have d: "distinct ts" by simp
    have "(\<exists>i j. i < j \<and> j < length ts \<and> ts ! i = c \<and> ts ! j = p) \<longleftrightarrow>
          (\<exists>i j. i < j \<and> j < length (a # ts) \<and> (a # ts) ! i = c \<and> (a # ts) ! j = p)"
    proof
      assume "\<exists>i j. i < j \<and> j < length ts \<and> ts ! i = c \<and> ts ! j = p"
      then obtain i j where "i < j" "j < length ts" "ts ! i = c" "ts ! j = p" by blast
      then have "Suc i < Suc j \<and> Suc j < length (a # ts) \<and> (a # ts) ! Suc i = c \<and> (a # ts) ! Suc j = p"
        by simp
      then show "\<exists>i j. i < j \<and> j < length (a # ts) \<and> (a # ts) ! i = c \<and> (a # ts) ! j = p"
        by blast
    next
      assume "\<exists>i j. i < j \<and> j < length (a # ts) \<and> (a # ts) ! i = c \<and> (a # ts) ! j = p"
      then obtain i j where ij: "i < j" "j < length (a # ts)" "(a # ts) ! i = c" "(a # ts) ! j = p"
        by blast
      with False obtain i' where i': "i = Suc i'" by (cases i) auto
      with ij obtain j' where j': "j = Suc j'" by (cases j) auto
      from ij i' j' have "i' < j' \<and> j' < length ts \<and> ts ! i' = c \<and> ts ! j' = p" by simp
      then show "\<exists>i j. i < j \<and> j < length ts \<and> ts ! i = c \<and> ts ! j = p" by blast
    qed
    with False Cons.IH [OF d] show ?thesis by simp
  qed
qed

lemma later_tape_iff:
  assumes "distinct (tapes ds)" and "''__proto__'' \<notin> set (tapes ds)"
  shows "(case tapeIndex ds c of None \<Rightarrow> False
          | Some ci \<Rightarrow> (case tapeIndex ds p of None \<Rightarrow> False | Some pi \<Rightarrow> pi > ci))
         \<longleftrightarrow> strictly_after (tapes ds) p c"
proof -
  have "(case tapeIndex ds c of None \<Rightarrow> False
          | Some ci \<Rightarrow> (case tapeIndex ds p of None \<Rightarrow> False | Some pi \<Rightarrow> pi > ci))
        \<longleftrightarrow> (\<exists>ci pi. tapeIndex ds c = Some ci \<and> tapeIndex ds p = Some pi \<and> ci < pi)"
    by (auto split: option.splits)
  also have "\<dots> \<longleftrightarrow> (\<exists>i j. i < j \<and> j < length (tapes ds) \<and> tapes ds ! i = c \<and> tapes ds ! j = p)"
  proof
    assume "\<exists>ci pi. tapeIndex ds c = Some ci \<and> tapeIndex ds p = Some pi \<and> ci < pi"
    then obtain ci pi where "tapeIndex ds c = Some ci" "tapeIndex ds p = Some pi" "ci < pi" by blast
    then have "ci < pi \<and> pi < length (tapes ds) \<and> tapes ds ! ci = c \<and> tapes ds ! pi = p"
      by (simp add: tapeIndex_distinct [OF assms])
    then show "\<exists>i j. i < j \<and> j < length (tapes ds) \<and> tapes ds ! i = c \<and> tapes ds ! j = p" by blast
  next
    assume "\<exists>i j. i < j \<and> j < length (tapes ds) \<and> tapes ds ! i = c \<and> tapes ds ! j = p"
    then obtain i j where "i < j" "j < length (tapes ds)" "tapes ds ! i = c" "tapes ds ! j = p" by blast
    then have "tapeIndex ds c = Some i \<and> tapeIndex ds p = Some j \<and> i < j"
      by (simp add: tapeIndex_distinct [OF assms])
    then show "\<exists>ci pi. tapeIndex ds c = Some ci \<and> tapeIndex ds p = Some pi \<and> ci < pi" by blast
  qed
  finally show ?thesis
    using assms(1) by (simp add: strictly_after_nth)
qed

lemma over_effect_occurrences:
  "concat (map F (concat (map (\<lambda>effectId. if effectId = e then [d] else []) es))) =
   concat (map (\<lambda>effectId. if effectId = e then F d else []) es)"
  by (induction es) auto

lemma over_option_occurrences:
  "concat (map F [d. opt \<leftarrow> os, effectId \<leftarrow> opt_effects opt, effectId = e]) =
   concat (map (\<lambda>opt. concat (map (\<lambda>effectId. if effectId = e then F d else []) (opt_effects opt))) os)"
  by (induction os) (auto simp: over_effect_occurrences)

lemma over_producers:
  "concat (map F (producers_of ds e)) =
   concat (map (\<lambda>entry. concat (map (\<lambda>opt. concat (map (\<lambda>effectId.
      if effectId = e then F (fst entry) else []) (opt_effects opt))) (options (snd entry)))) (decisions ds))"
proof -
  have "\<And>decs. concat (map F [decId. (decId, dec) \<leftarrow> decs, opt \<leftarrow> options dec, effectId \<leftarrow> opt_effects opt, effectId = e]) =
   concat (map (\<lambda>entry. concat (map (\<lambda>opt. concat (map (\<lambda>effectId.
      if effectId = e then F (fst entry) else []) (opt_effects opt))) (options (snd entry)))) decs)"
  proof -
    fix decs
    show "concat (map F [decId. (decId, dec) \<leftarrow> decs, opt \<leftarrow> options dec, effectId \<leftarrow> opt_effects opt, effectId = e]) =
      concat (map (\<lambda>entry. concat (map (\<lambda>opt. concat (map (\<lambda>effectId.
        if effectId = e then F (fst entry) else []) (opt_effects opt))) (options (snd entry)))) decs)"
    proof (induction decs)
      case Nil
      then show ?case by simp
    next
      case (Cons a decs)
      obtain decId dec where a: "a = (decId, dec)" by (cases a)
      show ?case
        unfolding a using over_option_occurrences [where F = F and d = decId and os = "options dec" and e = e] Cons.IH
        by (simp cong: if_cong)
    qed
  qed
  then show ?thesis by (simp add: producers_of_def)
qed

lemma concat_map_Nil: "concat (map (\<lambda>x. []) xs) = []"
  by (induction xs) auto

lemma produced_list: "(case map_of (producedEffects ds) e of None \<Rightarrow> [] | Some ps \<Rightarrow> ps) = producers_of ds e"
  by (simp add: map_of_producedEffects)

lemma tapeIndex_get_known:
  assumes "distinct (tapes ds)" and "''__proto__'' \<notin> set (tapes ds)"
    and "c \<in> set (tapes ds) \<or> c \<notin> set object_prototype_names"
  shows "tapeIndex_get ds c = (case tapeIndex ds c of None \<Rightarrow> NoIndex | Some i \<Rightarrow> Index i)"
proof (cases "tapeIndex ds c")
  case (Some i)
  then show ?thesis by (simp add: tapeIndex_get_def)
next
  case None
  have "c \<notin> set (tapes ds)"
  proof
    assume "c \<in> set (tapes ds)"
    then obtain j where "j < length (tapes ds)" "tapes ds ! j = c"
      by (auto simp: in_set_conv_nth)
    then have "tapeIndex ds c = Some j"
      by (simp add: tapeIndex_distinct [OF assms(1,2)])
    with None show False by simp
  qed
  with assms(3) None show ?thesis by (simp add: tapeIndex_get_def)
qed

lemma later_producer_Index:
  "later_producer ds (Index ci) d \<longleftrightarrow>
     (case tapeIndex ds (property_key (map_option dec_tape (map_of (decisions ds) d))) of
        None \<Rightarrow> False
      | Some pi \<Rightarrow> ci < pi)"
  by (simp add: later_producer_def tapeIndex_get_def js_greater_def Let_def split: option.splits)

lemma tape_order_check_errors:
  assumes "distinct (map fst (decisions ds))" and "distinct (tapes ds)"
    and "''__proto__'' \<notin> set (tapes ds)"
    and "con_tape (snd entry) \<in> set (tapes ds) \<or> con_tape (snd entry) \<notin> set object_prototype_names"
  shows "fst (tape_order_check ds entry) =
     [BACKWARD_DEPENDENCY (con_tape (snd entry)) (Some (dec_tape dec)) e.
        e \<leftarrow> checks (snd entry),
        (decId, dec) \<leftarrow> decisions ds, opt \<leftarrow> options dec, effectId \<leftarrow> opt_effects opt,
        effectId = e \<and> strictly_after (tapes ds) (dec_tape dec) (con_tape (snd entry))]"
proof -
  define c where "c = con_tape (snd entry)"
  have lookup: "\<And>x. x \<in> set (decisions ds) \<Longrightarrow> map_of (decisions ds) (fst x) = Some (snd x)"
    using assms(1) by (simp add: map_of_eq_Some_iff)
  have later: "\<And>p. (case tapeIndex ds c of None \<Rightarrow> False
          | Some ci \<Rightarrow> (case tapeIndex ds p of None \<Rightarrow> False | Some pi \<Rightarrow> pi > ci))
         \<longleftrightarrow> strictly_after (tapes ds) p c"
    by (rule later_tape_iff [OF assms(2,3)])
  have get: "tapeIndex_get ds c = (case tapeIndex ds c of None \<Rightarrow> NoIndex | Some i \<Rightarrow> Index i)"
    using assms(4) unfolding c_def by (rule tapeIndex_get_known [OF assms(2,3)])
  show ?thesis
  proof (cases "tapeIndex ds c")
    case None
    with later have no: "\<And>p. \<not> strictly_after (tapes ds) p c" by simp
    from None get have "tapeIndex_get ds c = NoIndex" by simp
    then show ?thesis
      unfolding tape_order_check_def Let_def c_def [symmetric]
      by (simp add: no concat_map_Nil split_def)
  next
    case (Some ci)
    with later have yes: "\<And>p. strictly_after (tapes ds) p c \<longleftrightarrow>
        (case tapeIndex ds p of None \<Rightarrow> False | Some pi \<Rightarrow> pi > ci)" by simp
    from Some get have idx: "tapeIndex_get ds c = Index ci" by simp
    have inner: "\<And>e. concat (map (\<lambda>producerDecId.
            if later_producer ds (Index ci) producerDecId
            then [BACKWARD_DEPENDENCY c (map_option dec_tape (map_of (decisions ds) producerDecId)) e]
            else []) (producers_of ds e)) =
         concat (map (\<lambda>x. concat (map (\<lambda>opt. concat (map (\<lambda>effectId.
            if effectId = e \<and> strictly_after (tapes ds) (dec_tape (snd x)) c
            then [BACKWARD_DEPENDENCY c (Some (dec_tape (snd x))) e] else [])
            (opt_effects opt))) (options (snd x)))) (decisions ds))"
      unfolding over_producers
      by (rule arg_cong [where f = concat], rule map_cong [OF refl])
         (simp add: lookup later_producer_Index property_key_def yes cong: if_cong)
    show ?thesis
      unfolding tape_order_check_def Let_def c_def [symmetric] idx
      by (simp add: produced_list inner split_def)
  qed
qed

lemma filter_none: "(\<And>x. x \<in> set xs \<Longrightarrow> \<not> P x) \<Longrightarrow> filter P xs = []"
  by (induction xs) auto

lemma backward_dependencies_validate:
  "backward_dependencies (validate ds) = backward_dependency_errors ds"
proof -
  let ?P = "\<lambda>f. case f of BACKWARD_DEPENDENCY c p e \<Rightarrow> True | _ \<Rightarrow> False"
  have a: "filter ?P (broken_effect_references ds) = []"
    by (rule filter_none) (auto simp: broken_effect_references_def)
  have b: "filter ?P (broken_consumer_references ds) = []"
    by (rule filter_none) (auto simp: broken_consumer_references_def)
  have c: "filter ?P (ghost_decision_errors ds) = []"
    by (rule filter_none) (auto simp: ghost_decision_errors_def ghost_decision_check_def Let_def split: if_splits)
  have d: "filter ?P (backward_dependency_errors ds) = backward_dependency_errors ds"
    by (rule filter_True)
       (auto simp: backward_dependency_errors_def tape_order_check_def Let_def split: if_splits)
  show ?thesis
    by (simp add: backward_dependencies_def validate_def a b c d)
qed

text \<open>
  Claim C2, as the code has it. In a dataset whose decision ids are distinct, whose
  tape ordering lists no tape twice, and whose tape names are ordinary keys of the
  \<open>tapeIndex\<close> object, the \<open>BACKWARD_DEPENDENCY\<close> errors are, in order, one for every
  consumer, every occurrence of an effect id \<open>e\<close> in its checks, and every occurrence of
  \<open>e\<close> in an option of a decision whose tape stands strictly after the consumer's tape
  in the ordering; each carries the two tapes and \<open>e\<close>. A consumer whose tape is not in
  the ordering contributes none. So a decision that lists \<open>e\<close> in \<open>k\<close> places yields \<open>k\<close>
  errors for the same consumer, effect and decision.
\<close>

theorem backward_dependency_per_occurrence:
  assumes "distinct (map fst (decisions ds))" and "distinct (tapes ds)"
    and "ordinary_tape_names ds"
  shows "backward_dependencies (validate ds) =
     [BACKWARD_DEPENDENCY (con_tape con) (Some (dec_tape dec)) e.
        (consumerId, con) \<leftarrow> consumers ds, e \<leftarrow> checks con,
        (decId, dec) \<leftarrow> decisions ds, opt \<leftarrow> options dec, effectId \<leftarrow> opt_effects opt,
        effectId = e \<and> strictly_after (tapes ds) (dec_tape dec) (con_tape con)]"
proof -
  from assms(3) have proto: "''__proto__'' \<notin> set (tapes ds)"
    and cons: "\<And>entry. entry \<in> set (consumers ds) \<Longrightarrow>
        con_tape (snd entry) \<in> set (tapes ds) \<or> con_tape (snd entry) \<notin> set object_prototype_names"
    by (auto simp: ordinary_tape_names_def list_all_iff)
  show ?thesis
    unfolding backward_dependencies_validate backward_dependency_errors_def
    by (rule arg_cong [where f = concat], rule map_cong [OF refl])
       (auto simp: tape_order_check_errors [OF assms(1,2) proto cons] cong: if_cong)
qed

text \<open>
  The scenario of the claim, with the decision listing \<open>e_foo\<close> once: exactly one error,
  naming \<open>tape1\<close>, \<open>tape2\<close> and \<open>e_foo\<close>.
\<close>

theorem backward_dependency_per_occurrence_witness:
  "distinct (map fst (decisions backward_scenario))
   \<and> distinct (tapes backward_scenario)
   \<and> ordinary_tape_names backward_scenario
   \<and> backward_dependencies (validate backward_scenario) =
       [BACKWARD_DEPENDENCY ''tape1'' (Some ''tape2'') ''e_foo'']"
  using backward_dependency_per_occurrence [of backward_scenario]
  by (simp add: backward_scenario_def ordinary_tape_names_def)

text \<open>
  The same scenario with a decision whose two options both produce \<open>e_foo\<close>: one
  consumer, one effect, one decision, and two errors.
\<close>

theorem backward_dependency_twice_counterexample:
  "map fst (decisions backward_two_options) = [''d1'']
   \<and> map fst (consumers backward_two_options) = [''c1'']
   \<and> backward_dependencies (validate backward_two_options) =
       [BACKWARD_DEPENDENCY ''tape1'' (Some ''tape2'') ''e_foo'',
        BACKWARD_DEPENDENCY ''tape1'' (Some ''tape2'') ''e_foo'']"
  by code_simp

text \<open>
  Where tape names are not ordinary keys the check behaves differently. A tape
  \<open>__proto__\<close> in the ordering gets no index: a consumer in it is neither reported as in
  an unknown tape nor ever found before a later tape.
\<close>

lemma proto_tape_never_orders:
  "distinct (map fst (decisions proto_tapes)) \<and> distinct (tapes proto_tapes)
   \<and> \<not> ordinary_tape_names proto_tapes
   \<and> strictly_after (tapes proto_tapes) ''tape2'' ''__proto__''
   \<and> errors (validate proto_tapes) = []
   \<and> warnings (validate proto_tapes) = []"
  by code_simp

text \<open>
  And two tapes outside the ordering that are both named like inherited members are
  compared as the strings the members convert to.
\<close>

lemma inherited_tapes_compare_as_strings:
  "tapes inherited_tapes = []
   \<and> errors (validate inherited_tapes) = [BACKWARD_DEPENDENCY ''constructor'' (Some ''toString'') ''e_foo'']
   \<and> unknown_tape_warnings inherited_tapes = [UNKNOWN_TAPE ''c2'' ''tape9'']"
  by code_simp

section \<open>Applying a stat effect\<close>

lemma stat_value_set_stat:
  "name \<in> set stat_names \<Longrightarrow> stat_value (set_stat ps name v) name = v"
  by (auto simp: stat_names_def stat_value_def set_stat_def)

lemma get_property_stat:
  "name \<in> set stat_names \<Longrightarrow> get_property ps name = Number (stat_value ps name)"
  by (auto simp: stat_names_def stat_value_def get_property_def)

lemma stat_not_collection:
  "name \<in> set stat_names \<Longrightarrow> name \<notin> set collection_names"
  by (auto simp: stat_names_def collection_names_def)

text \<open>
  Claim C5. A stat effect of the catalog that names one of the four stats is applied
  without an error and sets that stat to \<open>min(100, max(0, v + delta))\<close>, where \<open>v\<close>
  is the stat's value before; the returned \<open>newValue\<close> is that number.
\<close>

theorem stat_effect_clamps:
  assumes "map_of em effectId = Some eff" and "etype eff = ''stat''"
    and "stat eff = Some name" and "name \<in> set stat_names"
  shows "applyEffect em ps effectId now =
            Effect (AppliedStat (Some name) (delta eff)
                      (Number (min 100 (max 0 (stat_value ps name + delta eff)))))
              (set_stat ps name (min 100 (max 0 (stat_value ps name + delta eff))))
          \<and> stat_value (set_stat ps name (min 100 (max 0 (stat_value ps name + delta eff)))) name
              = min 100 (max 0 (stat_value ps name + delta eff))"
proof -
  let ?v = "max 0 (min 100 (stat_value ps name + delta eff))"
  have v: "?v = min 100 (max 0 (stat_value ps name + delta eff))" by simp
  have "applyEffect em ps effectId now =
      Effect (AppliedStat (Some name) (delta eff) (get_property (set_stat ps name ?v) name))
        (set_stat ps name ?v)"
    using assms
    by (simp add: applyEffect_def property_key_def hasOwnProperty_def stat_not_collection Let_def)
  with assms(4) show ?thesis
    unfolding v by (simp add: get_property_stat stat_value_set_stat)
qed

text \<open>Delta -30 at trust 10 gives 0, and delta +150 at guard 90 gives 100.\<close>

theorem stat_effect_clamps_witness:
  "map_of clamp_catalog ''e_minus'' =
      Some \<lparr> etype = ''stat'', stat = Some ''trust'', delta = - 30, description = None, consumed_by = [] \<rparr>
   \<and> ''trust'' \<in> set stat_names
   \<and> stat_value (initial_player_state\<lparr>trust := 10\<rparr>) ''trust'' = 10
   \<and> applyEffect clamp_catalog (initial_player_state\<lparr>trust := 10\<rparr>) ''e_minus'' 0 =
        Effect (AppliedStat (Some ''trust'') (- 30) (Number 0)) (initial_player_state\<lparr>trust := 0\<rparr>)
   \<and> map_of clamp_catalog ''e_plus'' =
      Some \<lparr> etype = ''stat'', stat = Some ''guard'', delta = 150, description = None, consumed_by = [] \<rparr>
   \<and> ''guard'' \<in> set stat_names
   \<and> stat_value (initial_player_state\<lparr>guard := 90\<rparr>) ''guard'' = 90
   \<and> applyEffect clamp_catalog (initial_player_state\<lparr>guard := 90\<rparr>) ''e_plus'' 0 =
        Effect (AppliedStat (Some ''guard'') 150 (Number 100)) (initial_player_state\<lparr>guard := 100\<rparr>)"
  using stat_effect_clamps [of clamp_catalog "''e_minus''"
      "\<lparr> etype = ''stat'', stat = Some ''trust'', delta = - 30, description = None, consumed_by = [] \<rparr>"
      "''trust''" "initial_player_state\<lparr>trust := 10\<rparr>" 0]
    stat_effect_clamps [of clamp_catalog "''e_plus''"
      "\<lparr> etype = ''stat'', stat = Some ''guard'', delta = 150, description = None, consumed_by = [] \<rparr>"
      "''guard''" "initial_player_state\<lparr>guard := 90\<rparr>" 0]
  by (simp add: clamp_catalog_def stat_names_def stat_value_def set_stat_def initial_player_state_def)

section \<open>getStat\<close>

text \<open>
  Claim C9 asks that \<open>getStat\<close> return the number 0 for every name that is not one of
  the four stats. The player-state object also holds the three collections, and
  \<open>this.#playerState[statName] || 0\<close> returns them: on a fresh engine
  \<open>getStat("activeFlags")\<close> is the (empty) Set and \<open>getStat("memories")\<close> the (empty)
  array, and a name inherited from \<open>Object.prototype\<close> yields the inherited member.
\<close>

theorem getStat_collection_name:
  "getStat (new_engine browser_storage) ''activeFlags'' = SetObject []
   \<and> getStat (new_engine browser_storage) ''memories'' = ArrayObject []
   \<and> getStat (new_engine browser_storage) ''toString'' = Inherited ''toString''"
  by code_simp

text \<open>For every other name the result is the stat, or the number 0.\<close>

lemma getStat_unknown_name:
  "name \<notin> set stat_names \<Longrightarrow> name \<notin> set collection_names \<Longrightarrow> name \<notin> set object_prototype_names
     \<Longrightarrow> getStat eng name = Number 0"
  by (auto simp: getStat_def get_property_def stat_names_def collection_names_def)

lemma getStat_stat_name:
  "name \<in> set stat_names \<Longrightarrow> getStat eng name = Number (stat_value (playerState eng) name)"
  by (auto simp: getStat_def get_property_def stat_names_def stat_value_def)

section \<open>Ending determination\<close>

text \<open>
  Claim C8 asks that a candidate match only if trust is at least \<open>min_trust\<close> whenever
  that bound is given. \<open>ending.min_trust && trust < ending.min_trust\<close> skips the bound 0
  as falsy, and \<open>#restoreState\<close> installs a saved stat without clamping it, where
  \<open>#applyEffect\<close> clamps. After \<open>importState\<close> of a document with trust -5, the
  candidate \<open>{id: "A", min_trust: 0}\<close> does not match in the words of the
  specification, and \<open>determineEnding\<close> returns it.
\<close>

theorem determineEnding_zero_bound:
  "fst (importState (new_engine browser_storage) (Json negative_trust_document)) = True
   \<and> trust (playerState negative_trust_engine) = - 5
   \<and> activeFlags (playerState negative_trust_engine) = []
   \<and> \<not> candidate_matches negative_trust_engine ending_zero_bound
   \<and> determineEnding negative_trust_engine (array_entries [ending_zero_bound, ending_default])
       = ending_zero_bound"
  by code_simp

text \<open>
  Play keeps the stats in range: a fresh engine has them at 0, and \<open>makeChoice\<close> clamps.
\<close>

lemma applyEffect_stats_in_range:
  "stats_in_range ps \<Longrightarrow> applyEffect em ps effectId now = Effect r ps' \<Longrightarrow> stats_in_range ps'"
  by (auto simp: applyEffect_def stats_in_range_def set_stat_def Let_def
      split: option.splits if_splits)

lemma applyEffects_stats_in_range:
  "stats_in_range ps \<Longrightarrow> applyEffects em clock k ids acc ps = Applied acc' ps' \<Longrightarrow> stats_in_range ps'"
proof (induction ids arbitrary: k acc ps)
  case Nil
  then show ?case by simp
next
  case (Cons a ids)
  show ?case
  proof (cases "applyEffect em ps a (clock k)")
    case NoEffect
    with Cons show ?thesis by simp
  next
    case (Effect r ps1)
    with Cons.prems(1) have "stats_in_range ps1" by (rule_tac applyEffect_stats_in_range)
    with Effect Cons.prems(2) Cons.IH show ?thesis by simp
  next
    case (Overwritten name)
    with Cons.prems(2) show ?thesis by simp
  qed
qed

lemma makeChoice_stats_in_range:
  assumes "stats_in_range (playerState eng)"
    and "makeChoice eng decisionId optionId clock = Returned r eng'"
  shows "stats_in_range (playerState eng')"
proof -
  have ps: "\<And>e. playerState (saveState e) = playerState e"
    by (simp add: saveState_def Let_def)
  from assms show ?thesis
    by (auto simp: makeChoice_def Let_def ps split: option.splits loop_result.splits
        dest: applyEffects_stats_in_range)
qed

lemma initial_stats_in_range: "stats_in_range initial_player_state"
  by (simp add: stats_in_range_def initial_player_state_def)

lemma below_bound_iff:
  "0 \<le> v \<Longrightarrow> below_bound bound v \<longleftrightarrow> \<not> (case bound of None \<Rightarrow> True | Some m \<Rightarrow> m \<le> v)"
  by (auto simp: below_bound_def split: option.splits)

lemma determineEnding_step:
  assumes "0 \<le> trust (playerState eng)" and "0 \<le> guard (playerState eng)"
  shows "determineEnding eng ((k, e) # rest) =
     (if candidate_matches eng e then ending_record k e else determineEnding eng rest)"
  using assms
  by (auto simp: candidate_matches_def below_bound_iff hasRequirements_def hasFlag_def
      split: option.splits)

text \<open>
  With trust and guard not negative, \<open>determineEnding\<close> returns the first entry, in the
  order given, whose ending matches in the words of the specification, as the record
  \<open>{id, ...ending}\<close>; when none matches it returns the default record, whose id is
  \<open>default\<close>.
\<close>

theorem determineEnding_first_match:
  assumes "0 \<le> trust (playerState eng)" and "0 \<le> guard (playerState eng)"
  shows "determineEnding eng entries =
     (case find (\<lambda>entry. candidate_matches eng (snd entry)) entries of
        None \<Rightarrow> default_ending
      | Some entry \<Rightarrow> ending_record (fst entry) (snd entry))
     \<and> end_id default_ending = Some ''default''"
proof (induction entries)
  case Nil
  then show ?case by (simp add: default_ending_def)
next
  case (Cons a entries)
  obtain k e where a: "a = (k, e)" by (cases a)
  from Cons show ?case
    unfolding a by (simp add: determineEnding_step [OF assms] del: determineEnding.simps)
qed

lemma array_entries_3: "array_entries [a, b, c] = [(''0'', a), (''1'', b), (''2'', c)]"
  by (simp add: array_entries_def upt_rec [of 0] upt_rec [of 1] upt_rec [of 2] string_of_nat.simps decimal_digits_def)

text \<open>
  The array \<open>[A (min_trust 20), B (requires e_x), default]\<close>, trust 25 and no flags: the
  result is ending \<open>A\<close>.
\<close>

theorem determineEnding_first_match_witness:
  "0 \<le> trust (playerState trust_25) \<and> 0 \<le> guard (playerState trust_25)
   \<and> trust (playerState trust_25) = 25
   \<and> activeFlags (playerState trust_25) = [] \<and> arcFlags (playerState trust_25) = []
   \<and> determineEnding trust_25 (array_entries [ending_A, ending_B, ending_default]) = ending_A"
  using determineEnding_first_match [of trust_25 "array_entries [ending_A, ending_B, ending_default]"]
  by (simp add: array_entries_3 trust_25_def new_engine_def initial_player_state_def
      candidate_matches_def ending_A_def ending_B_def ending_default_def ending_record_def)

section \<open>Export and import\<close>

text \<open>
  Claim C6 asks that importing an exported snapshot replace the whole state. The export
  is the serialization of \<open>getState\<close>, which has the four stats at top level, while
  \<open>#restoreState\<close> reads them from \<open>state.stats\<close> (where \<open>#saveState\<close> puts them). So
  the import restores flags, memories, arcs and history and leaves the stats of the
  importing engine as they were: exported with trust 5 and imported into a fresh engine,
  trust stays 0.
\<close>

theorem import_of_export_keeps_stats:
  "getStat played_engine ''trust'' = Number 5
   \<and> fst (importState (new_engine browser_storage) (exportState played_engine)) = True
   \<and> getStat (snd (importState (new_engine browser_storage) (exportState played_engine))) ''trust'' = Number 0
   \<and> v_flags (getState (snd (importState (new_engine browser_storage) (exportState played_engine)))) = [''flag_seen'']"
  by code_simp

text \<open>
  Claim C7. For every engine state, importing what \<open>exportState\<close> has just returned
  leaves the state observationally equal: the same four stat values, the same set of
  flags, the same set of arcs, the same memory ids in order and the same history.
\<close>

theorem export_import_roundtrip:
  "v_trust (getState (snd (importState eng (exportState eng)))) = v_trust (getState eng)
   \<and> v_guard (getState (snd (importState eng (exportState eng)))) = v_guard (getState eng)
   \<and> v_honesty (getState (snd (importState eng (exportState eng)))) = v_honesty (getState eng)
   \<and> v_vulnerability (getState (snd (importState eng (exportState eng)))) = v_vulnerability (getState eng)
   \<and> set (v_flags (getState (snd (importState eng (exportState eng))))) = set (v_flags (getState eng))
   \<and> set (v_arcs (getState (snd (importState eng (exportState eng))))) = set (v_arcs (getState eng))
   \<and> map mem_id (v_memories (getState (snd (importState eng (exportState eng)))))
        = map mem_id (v_memories (getState eng))
   \<and> v_history (getState (snd (importState eng (exportState eng)))) = v_history (getState eng)"
  by (simp add: importState_def exportState_def restoreState_def getState_def stringify_view_def
      set_new_Set Let_def)

lemma new_Set_distinct_id: "distinct xs \<Longrightarrow> new_Set xs = xs"
proof -
  have "\<And>acc. distinct (acc @ xs) \<Longrightarrow> fold (\<lambda>x s. if x \<in> set s then s else s @ [x]) xs acc = acc @ xs"
  proof (induction xs)
    case Nil
    then show ?case by simp
  next
    case (Cons a xs)
    from Cons.prems have "distinct ((acc @ [a]) @ xs)" by simp
    from Cons.IH [OF this] Cons.prems show ?case by simp
  qed
  from this [of "[]"] show "distinct xs \<Longrightarrow> new_Set xs = xs"
    by (simp add: new_Set_def)
qed

text \<open>When the two sets hold no id twice, as sets built by the engine do, the whole view is equal.\<close>

lemma export_import_same_view:
  assumes "distinct (activeFlags (playerState eng))" and "distinct (arcFlags (playerState eng))"
  shows "getState (snd (importState eng (exportState eng))) = getState eng"
  using assms
  by (simp add: importState_def exportState_def restoreState_def getState_def stringify_view_def
      new_Set_distinct_id Let_def)

section \<open>makeChoice\<close>

text \<open>
  Claim C4 asks that \<open>makeChoice\<close> throw only for an unknown decision or option and
  leave the state unchanged when it throws. The guard
  \<open>this.#playerState.hasOwnProperty(stat)\<close> lets a stat effect through that names
  \<open>activeFlags\<close>, \<open>memories\<close> or \<open>arcFlags\<close>; the assignment replaces the collection
  by a number, and the call throws a TypeError where the collection is next spread. With
  decision \<open>d1\<close> and its option \<open>a\<close> both known, the call throws, after the choice
  was pushed to the history.
\<close>

theorem makeChoice_collection_stat_throws:
  "map fst (decisions_map collection_stat_engine) = [''d1'']
   \<and> map_option (\<lambda>dec. map opt_id (options dec)) (map_of (decisions_map collection_stat_engine) ''d1'') = Some [''a'']
   \<and> history collection_stat_engine = []
   \<and> makeChoice collection_stat_engine ''d1'' ''a'' (\<lambda>k. 1000) =
       Corrupted ''activeFlags''
         [\<lparr> h_decisionId = ''d1'', h_optionId = ''a'', h_timestamp = 1000, h_tape = ''tape1'' \<rparr>]"
  by code_simp

lemma applyEffect_not_Overwritten:
  assumes "no_collection_stat em"
  shows "applyEffect em ps effectId now \<noteq> Overwritten name"
proof (cases "map_of em effectId")
  case None
  then show ?thesis by (simp add: applyEffect_def)
next
  case (Some eff)
  then have "(effectId, eff) \<in> set em" by (rule map_of_SomeD)
  with assms have "\<not> (etype eff = ''stat'' \<and> property_key (stat eff) \<in> set collection_names)"
    by (auto simp: no_collection_stat_def list_all_iff)
  with Some show ?thesis
    by (auto simp: applyEffect_def Let_def)
qed

lemma applyEffect_NoEffect_iff:
  "applyEffect em ps effectId now = NoEffect \<longleftrightarrow> \<not> in_catalog em effectId"
  by (auto simp: applyEffect_def in_catalog_def Let_def split: option.splits)

lemma applyEffects_skip_unknown:
  "applyEffects em clock k ids acc ps = applyEffects em clock k (filter (in_catalog em) ids) acc ps"
proof (induction ids arbitrary: k acc ps)
  case Nil
  then show ?case by simp
next
  case (Cons a ids)
  show ?case
  proof (cases "in_catalog em a")
    case False
    then have "applyEffect em ps a (clock k) = NoEffect" by (simp add: applyEffect_NoEffect_iff)
    with False Cons.IH show ?thesis by simp
  next
    case True
    then show ?thesis
      using Cons.IH by (simp split: effect_result.splits)
  qed
qed

lemma applyEffects_applied:
  assumes "no_collection_stat em"
  shows "\<exists>acc' ps'. applyEffects em clock k ids acc ps = Applied acc' ps'
           \<and> map fst acc' = map fst acc @ filter (in_catalog em) ids"
proof (induction ids arbitrary: k acc ps)
  case Nil
  then show ?case by simp
next
  case (Cons a ids)
  show ?case
  proof (cases "applyEffect em ps a (clock k)")
    case NoEffect
    then have "\<not> in_catalog em a" by (simp add: applyEffect_NoEffect_iff)
    with NoEffect Cons.IH [of k acc ps] show ?thesis by simp
  next
    case (Effect r ps1)
    then have "in_catalog em a"
      using applyEffect_NoEffect_iff [of em ps a "clock k"] by auto
    with Effect Cons.IH [of "case r of AppliedMemory m \<Rightarrow> Suc k | _ \<Rightarrow> k" "acc @ [(a, r)]" ps1]
    show ?thesis by simp
  next
    case (Overwritten name)
    with applyEffect_not_Overwritten [OF assms] show ?thesis by blast
  qed
qed

lemma find_None_opt_id:
  "find (\<lambda>opt. opt_id opt = optionId) os = None \<longleftrightarrow> optionId \<notin> opt_id ` set os"
  by (auto simp: find_None_iff)

text \<open>
  In an engine whose stat effects name no collection, \<open>makeChoice\<close> throws if and only
  if the decision id is not in the decision map or the option id is not among that
  decision's options; a throw leaves the engine (player state, history, storage) as it
  was; and a call that returns lists as applied exactly the option's effect ids that the
  catalog holds, in order, its result and final player state being those of applying
  only these: an id the catalog lacks is skipped and stops nothing.
\<close>

theorem makeChoice_throws_iff:
  assumes "no_collection_stat (effects_map eng)"
  shows "((\<exists>err eng'. makeChoice eng decisionId optionId clock = Threw err eng') \<longleftrightarrow>
            (case map_of (decisions_map eng) decisionId of
               None \<Rightarrow> True
             | Some dec \<Rightarrow> optionId \<notin> opt_id ` set (options dec)))
       \<and> (\<forall>err eng'. makeChoice eng decisionId optionId clock = Threw err eng' \<longrightarrow> eng' = eng)
       \<and> (\<forall>name h. makeChoice eng decisionId optionId clock \<noteq> Corrupted name h)
       \<and> (\<forall>r eng' dec opt.
             makeChoice eng decisionId optionId clock = Returned r eng'
             \<and> map_of (decisions_map eng) decisionId = Some dec
             \<and> find (\<lambda>opt. opt_id opt = optionId) (options dec) = Some opt
           \<longrightarrow> map fst (r_effects r) = filter (in_catalog (effects_map eng)) (opt_effects opt)
             \<and> applyEffects (effects_map eng) clock 1
                  (filter (in_catalog (effects_map eng)) (opt_effects opt)) [] (playerState eng)
                = Applied (r_effects r) (playerState eng'))"
proof (cases "map_of (decisions_map eng) decisionId")
  case None
  then show ?thesis by (simp add: makeChoice_def)
next
  case (Some dec)
  show ?thesis
  proof (cases "find (\<lambda>opt. opt_id opt = optionId) (options dec)")
    case None
    with Some have mc: "makeChoice eng decisionId optionId clock = Threw (UnknownOption optionId decisionId) eng"
      by (simp add: makeChoice_def)
    from None have "optionId \<notin> opt_id ` set (options dec)"
      by (simp add: find_None_opt_id)
    with Some None show ?thesis
      unfolding mc by simp
  next
    case found: (Some opt)
    then have mem: "optionId \<in> opt_id ` set (options dec)"
      using find_None_opt_id [of optionId "options dec"] by auto
    obtain acc' ps' where run: "applyEffects (effects_map eng) clock 1 (opt_effects opt) [] (playerState eng) = Applied acc' ps'"
      and ids: "map fst acc' = filter (in_catalog (effects_map eng)) (opt_effects opt)"
      using applyEffects_applied [OF assms, of clock 1 "opt_effects opt" "[]" "playerState eng"] by auto
    from run have run': "applyEffects (effects_map eng) clock 1
        (filter (in_catalog (effects_map eng)) (opt_effects opt)) [] (playerState eng) = Applied acc' ps'"
      using applyEffects_skip_unknown [of "effects_map eng" clock 1 "opt_effects opt" "[]" "playerState eng"]
      by simp
    have ps: "\<And>e. playerState (saveState e) = playerState e"
      by (simp add: saveState_def Let_def)
    define eng2 where "eng2 = saveState (eng\<lparr>history := history eng @
                              [\<lparr> h_decisionId = decisionId, h_optionId = optionId,
                                 h_timestamp = clock 0, h_tape = dec_tape dec \<rparr>], playerState := ps'\<rparr>)"
    from Some found run have mc: "makeChoice eng decisionId optionId clock =
        Returned \<lparr> r_decision = decisionId, r_option = optionId,
                   r_effects = acc', r_state = getState eng2 \<rparr> eng2"
      by (simp add: makeChoice_def Let_def eng2_def)
    have ps2: "playerState eng2 = ps'" by (simp add: eng2_def ps)
    from Some found mem run' ids ps2 show ?thesis
      unfolding mc by simp
  qed
qed

theorem makeChoice_throws_iff_witness:
  "no_collection_stat (effects_map loaded_engine)
   \<and> (\<exists>err eng'. makeChoice loaded_engine ''d1'' ''optZ'' (\<lambda>k. 1000) = Threw err eng')
   \<and> \<not> (\<exists>err eng'. makeChoice loaded_engine ''d1'' ''optA'' (\<lambda>k. 1000) = Threw err eng')
   \<and> makeChoice loaded_engine ''d9'' ''optA'' (\<lambda>k. 1000) = Threw (UnknownDecision ''d9'') loaded_engine
   \<and> makeChoice loaded_engine ''d1'' ''optZ'' (\<lambda>k. 1000) = Threw (UnknownOption ''optZ'' ''d1'') loaded_engine
   \<and> (case makeChoice loaded_engine ''d1'' ''optA'' (\<lambda>k. 1000) of
         Returned r eng' \<Rightarrow>
           map fst (r_effects r) = [''flag_seen'', ''stat_trust_+5'']
           \<and> activeFlags (playerState eng') = [''flag_seen'']
           \<and> trust (playerState eng') = 5
           \<and> map h_optionId (history eng') = [''optA'']
       | _ \<Rightarrow> False)"
proof -
  have h: "no_collection_stat (effects_map loaded_engine)"
    by code_simp
  have o: "map_of (decisions_map loaded_engine) ''d1'' =
      Some \<lparr> dec_tape = ''tape1'',
             options = [\<lparr> opt_id = ''optA'', opt_effects = [''flag_seen'', ''e_missing'', ''stat_trust_+5''] \<rparr>,
                        \<lparr> opt_id = ''optB'', opt_effects = [] \<rparr>] \<rparr>"
    by code_simp
  have t: "\<exists>err eng'. makeChoice loaded_engine ''d1'' ''optZ'' (\<lambda>k. 1000) = Threw err eng'"
    using makeChoice_throws_iff [OF h, of "''d1''" "''optZ''" "\<lambda>k. 1000"] o by simp
  have n: "\<not> (\<exists>err eng'. makeChoice loaded_engine ''d1'' ''optA'' (\<lambda>k. 1000) = Threw err eng')"
    using makeChoice_throws_iff [OF h, of "''d1''" "''optA''" "\<lambda>k. 1000"] o by simp
  have e: "makeChoice loaded_engine ''d9'' ''optA'' (\<lambda>k. 1000) = Threw (UnknownDecision ''d9'') loaded_engine
   \<and> makeChoice loaded_engine ''d1'' ''optZ'' (\<lambda>k. 1000) = Threw (UnknownOption ''optZ'' ''d1'') loaded_engine
   \<and> (case makeChoice loaded_engine ''d1'' ''optA'' (\<lambda>k. 1000) of
         Returned r eng' \<Rightarrow>
           map fst (r_effects r) = [''flag_seen'', ''stat_trust_+5'']
           \<and> activeFlags (playerState eng') = [''flag_seen'']
           \<and> trust (playerState eng') = 5
           \<and> map h_optionId (history eng') = [''optA'']
       | _ \<Rightarrow> False)"
    by code_simp
  from h t n e show ?thesis by blast
qed

text \<open>
  What applying means for the effects the catalog holds: a call that returns has every
  such flag of the option among the active flags, every such arc among the arc flags,
  every such memory among the memories, and every such id in the returned list.
\<close>

lemma set_stat_collections:
  "activeFlags (set_stat ps name v) = activeFlags ps"
  "arcFlags (set_stat ps name v) = arcFlags ps"
  "memories (set_stat ps name v) = memories ps"
  by (simp_all add: set_stat_def)

lemma applyEffect_collections:
  assumes "applyEffect em ps effectId now = Effect r ps'" and "map_of em effectId = Some eff"
  shows "activeFlags ps' = (if etype eff = ''flag'' \<and> effectId \<notin> set (activeFlags ps)
                           then activeFlags ps @ [effectId] else activeFlags ps)"
    and "arcFlags ps' = (if etype eff = ''arc'' \<and> effectId \<notin> set (arcFlags ps)
                           then arcFlags ps @ [effectId] else arcFlags ps)"
    and "memories ps' = (if etype eff = ''memory''
                         then memories ps @ [\<lparr> mem_id = effectId, mem_description = description eff,
                                                mem_timestamp = now \<rparr>]
                         else memories ps)"
proof -
  have ps': "ps' = (if etype eff = ''stat'' then
            (if hasOwnProperty (property_key (stat eff)) then
               set_stat ps (property_key (stat eff))
                 (max 0 (min 100 (stat_value ps (property_key (stat eff)) + delta eff)))
             else ps)
          else if etype eff = ''flag'' then
              (ps\<lparr>activeFlags := (if effectId \<in> set (activeFlags ps) then activeFlags ps
                                     else activeFlags ps @ [effectId])\<rparr>)
          else if etype eff = ''memory'' then
              (ps\<lparr>memories := memories ps @
                 [\<lparr> mem_id = effectId, mem_description = description eff, mem_timestamp = now \<rparr>]\<rparr>)
          else if etype eff = ''arc'' then
              (ps\<lparr>arcFlags := (if effectId \<in> set (arcFlags ps) then arcFlags ps
                                  else arcFlags ps @ [effectId])\<rparr>)
          else ps)"
    using assms unfolding applyEffect_def Let_def
    by (simp only: option.case split: if_splits) simp_all
  have d: "''stat'' \<noteq> ''flag''" "''stat'' \<noteq> ''memory''" "''stat'' \<noteq> ''arc''"
    "''flag'' \<noteq> ''memory''" "''flag'' \<noteq> ''arc''" "''memory'' \<noteq> ''arc''"
    by simp_all
  show "activeFlags ps' = (if etype eff = ''flag'' \<and> effectId \<notin> set (activeFlags ps)
                           then activeFlags ps @ [effectId] else activeFlags ps)"
    unfolding ps' using d by (auto simp: set_stat_collections)
  show "arcFlags ps' = (if etype eff = ''arc'' \<and> effectId \<notin> set (arcFlags ps)
                           then arcFlags ps @ [effectId] else arcFlags ps)"
    unfolding ps' using d by (auto simp: set_stat_collections)
  show "memories ps' = (if etype eff = ''memory''
                         then memories ps @ [\<lparr> mem_id = effectId, mem_description = description eff,
                                                mem_timestamp = now \<rparr>]
                         else memories ps)"
    unfolding ps' using d by (auto simp: set_stat_collections)
qed

lemma applyEffect_in_catalog:
  "applyEffect em ps effectId now = Effect r ps' \<Longrightarrow> \<exists>eff. map_of em effectId = Some eff"
  by (cases "map_of em effectId") (simp_all add: applyEffect_def)

lemma applyEffect_keeps_flags:
  assumes "applyEffect em ps effectId now = Effect r ps'"
  shows "set (activeFlags ps) \<subseteq> set (activeFlags ps') \<and> set (arcFlags ps) \<subseteq> set (arcFlags ps')
     \<and> mem_id ` set (memories ps) \<subseteq> mem_id ` set (memories ps')"
proof -
  from assms obtain eff where "map_of em effectId = Some eff"
    using applyEffect_in_catalog by blast
  from applyEffect_collections [OF assms this] show ?thesis by auto
qed

lemma applyEffect_marks:
  assumes "applyEffect em ps effectId now = Effect r ps'" and "map_of em effectId = Some eff"
  shows "(etype eff = ''flag'' \<longrightarrow> effectId \<in> set (activeFlags ps'))
     \<and> (etype eff = ''arc'' \<longrightarrow> effectId \<in> set (arcFlags ps'))
     \<and> (etype eff = ''memory'' \<longrightarrow> effectId \<in> mem_id ` set (memories ps'))"
  using applyEffect_collections [OF assms] by auto

lemma applyEffects_keeps_flags:
  "applyEffects em clock k ids acc ps = Applied acc' ps' \<Longrightarrow>
     set (activeFlags ps) \<subseteq> set (activeFlags ps') \<and> set (arcFlags ps) \<subseteq> set (arcFlags ps')
     \<and> mem_id ` set (memories ps) \<subseteq> mem_id ` set (memories ps')"
proof (induction ids arbitrary: k acc ps)
  case Nil
  then show ?case by simp
next
  case (Cons a ids)
  show ?case
  proof (cases "applyEffect em ps a (clock k)")
    case NoEffect
    with Cons show ?thesis by simp
  next
    case (Effect r ps1)
    from applyEffect_keeps_flags [OF Effect]
    have 1: "set (activeFlags ps) \<subseteq> set (activeFlags ps1) \<and> set (arcFlags ps) \<subseteq> set (arcFlags ps1)
     \<and> mem_id ` set (memories ps) \<subseteq> mem_id ` set (memories ps1)" .
    from Effect Cons.prems
    have "applyEffects em clock (case r of AppliedMemory m \<Rightarrow> Suc k | _ \<Rightarrow> k) ids (acc @ [(a, r)]) ps1 = Applied acc' ps'"
      by simp
    from Cons.IH [OF this] have 2: "set (activeFlags ps1) \<subseteq> set (activeFlags ps') \<and> set (arcFlags ps1) \<subseteq> set (arcFlags ps')
     \<and> mem_id ` set (memories ps1) \<subseteq> mem_id ` set (memories ps')" .
    from 1 2 show ?thesis by (meson order_trans)
  next
    case (Overwritten name)
    with Cons.prems show ?thesis by simp
  qed
qed

lemma applyEffects_marks:
  "applyEffects em clock k ids acc ps = Applied acc' ps' \<Longrightarrow>
   effectId \<in> set ids \<Longrightarrow> map_of em effectId = Some eff \<Longrightarrow>
     (etype eff = ''flag'' \<longrightarrow> effectId \<in> set (activeFlags ps'))
     \<and> (etype eff = ''arc'' \<longrightarrow> effectId \<in> set (arcFlags ps'))
     \<and> (etype eff = ''memory'' \<longrightarrow> effectId \<in> mem_id ` set (memories ps'))"
proof (induction ids arbitrary: k acc ps)
  case Nil
  then show ?case by simp
next
  case (Cons a ids)
  show ?case
  proof (cases "applyEffect em ps a (clock k)")
    case NoEffect
    then have "map_of em a = None" by (simp add: applyEffect_NoEffect_iff in_catalog_def)
    with Cons.prems have "effectId \<in> set ids" by auto
    with NoEffect Cons show ?thesis by simp
  next
    case (Effect r ps1)
    from Effect Cons.prems(1)
    have run: "applyEffects em clock (case r of AppliedMemory m \<Rightarrow> Suc k | _ \<Rightarrow> k) ids (acc @ [(a, r)]) ps1 = Applied acc' ps'"
      by simp
    show ?thesis
    proof (cases "effectId \<in> set ids")
      case True
      from Cons.IH [OF run True Cons.prems(3)] show ?thesis .
    next
      case False
      with Cons.prems(2) have "effectId = a" by simp
      with applyEffect_marks [OF Effect, of eff] Cons.prems(3)
      have m: "(etype eff = ''flag'' \<longrightarrow> effectId \<in> set (activeFlags ps1))
         \<and> (etype eff = ''arc'' \<longrightarrow> effectId \<in> set (arcFlags ps1))
         \<and> (etype eff = ''memory'' \<longrightarrow> effectId \<in> mem_id ` set (memories ps1))" by simp
      from applyEffects_keeps_flags [OF run]
      have k: "set (activeFlags ps1) \<subseteq> set (activeFlags ps')" "set (arcFlags ps1) \<subseteq> set (arcFlags ps')"
        "mem_id ` set (memories ps1) \<subseteq> mem_id ` set (memories ps')" by simp_all
      from m k(1) have a: "etype eff = ''flag'' \<longrightarrow> effectId \<in> set (activeFlags ps')" by (meson subsetD)
      from m k(2) have b: "etype eff = ''arc'' \<longrightarrow> effectId \<in> set (arcFlags ps')" by (meson subsetD)
      from m k(3) have c: "etype eff = ''memory'' \<longrightarrow> effectId \<in> mem_id ` set (memories ps')" by (meson subsetD)
      from a b c show ?thesis by simp
    qed
  next
    case (Overwritten name)
    with Cons.prems show ?thesis by simp
  qed
qed

lemma applyEffects_ids:
  "applyEffects em clock k ids acc ps = Applied acc' ps' \<Longrightarrow>
     map fst acc' = map fst acc @ filter (in_catalog em) ids"
proof (induction ids arbitrary: k acc ps)
  case Nil
  then show ?case by simp
next
  case (Cons a ids)
  show ?case
  proof (cases "applyEffect em ps a (clock k)")
    case NoEffect
    then have "\<not> in_catalog em a" by (simp add: applyEffect_NoEffect_iff)
    with NoEffect Cons show ?thesis by simp
  next
    case (Effect r ps1)
    then have "in_catalog em a"
      using applyEffect_NoEffect_iff [of em ps a "clock k"] by auto
    with Effect Cons.prems
      Cons.IH [of "case r of AppliedMemory m \<Rightarrow> Suc k | _ \<Rightarrow> k" "acc @ [(a, r)]" ps1]
    show ?thesis by simp
  next
    case (Overwritten name)
    with Cons.prems show ?thesis by simp
  qed
qed

lemma makeChoice_applies_known_effects:
  assumes "makeChoice eng decisionId optionId clock = Returned r eng'"
    and "map_of (decisions_map eng) decisionId = Some dec"
    and "find (\<lambda>opt. opt_id opt = optionId) (options dec) = Some opt"
    and "effectId \<in> set (opt_effects opt)" and "map_of (effects_map eng) effectId = Some eff"
  shows "(etype eff = ''flag'' \<longrightarrow> effectId \<in> set (activeFlags (playerState eng')))
     \<and> (etype eff = ''arc'' \<longrightarrow> effectId \<in> set (arcFlags (playerState eng')))
     \<and> (etype eff = ''memory'' \<longrightarrow> effectId \<in> mem_id ` set (memories (playerState eng')))
     \<and> effectId \<in> fst ` set (r_effects r)"
proof -
  have ps: "\<And>e. playerState (saveState e) = playerState e"
    by (simp add: saveState_def Let_def)
  obtain acc' ps' where
    run: "applyEffects (effects_map eng) clock 1 (opt_effects opt) [] (playerState eng) = Applied acc' ps'"
    and r: "r_effects r = acc'" and e: "playerState eng' = ps'"
  proof (cases "applyEffects (effects_map eng) clock 1 (opt_effects opt) [] (playerState eng)")
    case (Applied acc' ps')
    with assms(1-3) have "r_effects r = acc' \<and> playerState eng' = ps'"
      by (auto simp: makeChoice_def Let_def ps)
    with Applied that show ?thesis by blast
  next
    case (Stopped name)
    with assms(1-3) show ?thesis by (simp add: makeChoice_def Let_def)
  qed
  from applyEffects_ids [OF run] assms(4,5)
  have "effectId \<in> set (map fst acc')" by (simp add: in_catalog_def)
  with applyEffects_marks [OF run assms(4,5)] r e show ?thesis by simp
qed

section \<open>The two ghost detectors\<close>

lemma fold_update_fresh:
  "distinct (map fst (acc @ xs)) \<Longrightarrow> fold (\<lambda>(k, v) m. AList.update k v m) xs acc = acc @ xs"
proof (induction xs arbitrary: acc)
  case Nil
  then show ?case by simp
next
  case (Cons a xs)
  obtain k v where a: "a = (k, v)" by (cases a)
  from Cons.prems a have fresh: "k \<notin> fst ` set acc" by auto
  have upd: "AList.update k v acc = acc @ [(k, v)]"
    using fresh by (induction acc) auto
  from Cons.prems a have "distinct (map fst ((acc @ [(k, v)]) @ xs))" by simp
  from Cons.IH [OF this] show ?case
    unfolding a by (simp add: upd)
qed

lemma restoreState_maps:
  "effects_map (restoreState eng) = effects_map eng"
  "consumers_map (restoreState eng) = consumers_map eng"
  by (simp_all add: restoreState_def Let_def split: option.splits)

lemma effects_map_load:
  assumes "distinct (map fst (effects ds))"
  shows "effects_map (load (new_engine st) ds) = effects ds"
  using fold_update_fresh [of "[]" "effects ds"] assms
  by (simp add: load_def Let_def restoreState_maps new_engine_def)

lemma fold_consumer_checks:
  "fold (\<lambda>effectId m. index_push m effectId v) es m =
   fold (\<lambda>(k, v) m. index_push m k v) (map (\<lambda>effectId. (effectId, v)) es) m"
  by (induction es arbitrary: m) auto

lemma fold_consumer_entries:
  "fold (\<lambda>(consumerId, con) m.
      fold (\<lambda>effectId m. index_push m effectId (consumerId, con)) (checks con) m) cs m =
   fold (\<lambda>(k, v) m. index_push m k v)
     [(effectId, (consumerId, con)). (consumerId, con) \<leftarrow> cs, effectId \<leftarrow> checks con] m"
proof (induction cs arbitrary: m)
  case Nil
  then show ?case by simp
next
  case (Cons c cs)
  obtain consumerId con where c: "c = (consumerId, con)" by (cases c)
  show ?case
    unfolding c using fold_consumer_checks [of "(consumerId, con)" "checks con" m]
    by (simp add: Cons.IH)
qed

lemma checking_entries_empty:
  "map snd (filter (\<lambda>p. fst p = e)
      [(effectId, (consumerId, con)). (consumerId, con) \<leftarrow> consumers ds, effectId \<leftarrow> checks con]) = []
   \<longleftrightarrow> consumersOf ds e = []"
proof -
  let ?L = "map snd (filter (\<lambda>p. fst p = e)
      [(effectId, (consumerId, con)). (consumerId, con) \<leftarrow> consumers ds, effectId \<leftarrow> checks con])"
  have "set ?L = {(consumerId, con). (consumerId, con) \<in> set (consumers ds) \<and> e \<in> set (checks con)}"
    by force
  moreover have "?L = [] \<longleftrightarrow> set ?L = {}" by (rule set_empty [symmetric])
  ultimately have "?L = [] \<longleftrightarrow>
      \<not> (\<exists>consumerId con. (consumerId, con) \<in> set (consumers ds) \<and> e \<in> set (checks con))"
    by (simp only: Collect_empty_eq case_prod_conv split_paired_all) blast
  then show ?thesis by (simp add: consumersOf_empty_iff)
qed

lemma consumers_map_load:
  "(case map_of (consumers_map (load (new_engine st) ds)) e of None \<Rightarrow> [] | Some cs \<Rightarrow> cs) = []
     \<longleftrightarrow> consumersOf ds e = []"
proof -
  have "consumers_map (load (new_engine st) ds) =
      fold (\<lambda>(k, v) m. index_push m k v)
        [(effectId, (consumerId, con)). (consumerId, con) \<leftarrow> consumers ds, effectId \<leftarrow> checks con] []"
    by (simp add: load_def Let_def restoreState_maps new_engine_def fold_consumer_entries)
  then show ?thesis
    using checking_entries_empty [of e ds]
    by (simp add: map_of_fold_index_push Let_def)
qed

lemma runtime_ghost_ids_load:
  assumes "distinct (map fst (effects ds))"
  shows "set (runtime_ghost_ids (load (new_engine st) ds)) =
     {e. \<exists>eff. map_of (effects ds) e = Some eff \<and> etype eff \<noteq> ''stat'' \<and> etype eff \<noteq> ''arc''
           \<and> consumersOf ds e = []}"
proof -
  have "set (runtime_ghost_ids (load (new_engine st) ds)) =
      {e. \<exists>eff. (e, eff) \<in> set (effects ds) \<and> etype eff \<noteq> ''stat'' \<and> etype eff \<noteq> ''arc''
           \<and> consumersOf ds e = []}"
    unfolding runtime_ghost_ids_def detectGhosts_def effects_map_load [OF assms]
    using consumers_map_load [of st ds]
    by (auto simp: Let_def split: if_splits) force
  with assms show ?thesis
    by (simp add: map_of_eq_Some_iff)
qed

text \<open>
  Claim C10, as the code has it. For a dataset with distinct effect ids and an effect
  id that the catalog defines without an inline \<open>consumed_by\<close> list and that some
  decision produces, \<open>detectGhosts\<close> on the loaded engine returns the id if and only if
  the validator warns \<open>GHOST_EFFECT\<close> for it.
\<close>

theorem ghost_detectors_agree_on_produced:
  assumes "distinct (map fst (effects ds))"
    and "map_of (effects ds) e = Some eff" and "consumed_by eff = []"
    and "producers_of ds e \<noteq> []"
  shows "e \<in> set (runtime_ghost_ids (load (new_engine st) ds)) \<longleftrightarrow>
         e \<in> set (ghost_effect_ids (validate ds))"
proof -
  have "e \<in> set (runtime_ghost_ids (load (new_engine st) ds)) \<longleftrightarrow>
      etype eff \<noteq> ''stat'' \<and> etype eff \<noteq> ''arc'' \<and> consumersOf ds e = []"
    unfolding runtime_ghost_ids_load [OF assms(1)] using assms(2) by auto
  moreover have "e \<in> set (ghost_effect_ids (validate ds)) \<longleftrightarrow>
      etype eff \<noteq> ''stat'' \<and> etype eff \<noteq> ''arc'' \<and> consumersOf ds e = []"
    unfolding set_ghost_effect_ids using assms(2-4)
    by (auto simp: type_is_def inline_consumed_by_def)
  ultimately show ?thesis by simp
qed

theorem ghost_detectors_agree_on_produced_witness:
  "distinct (map fst (effects two_options_same_effects))
   \<and> map_of (effects two_options_same_effects) ''e1'' =
       Some \<lparr> etype = ''flag'', stat = None, delta = 0, description = None, consumed_by = [] \<rparr>
   \<and> producers_of two_options_same_effects ''e1'' \<noteq> []
   \<and> ''e1'' \<in> set (runtime_ghost_ids (load (new_engine browser_storage) two_options_same_effects))
   \<and> ''e1'' \<in> set (ghost_effect_ids (validate two_options_same_effects))"
proof -
  have v: "''e1'' \<in> set (ghost_effect_ids (validate two_options_same_effects))"
    by code_simp
  have h: "distinct (map fst (effects two_options_same_effects))
      \<and> map_of (effects two_options_same_effects) ''e1'' =
       Some \<lparr> etype = ''flag'', stat = None, delta = 0, description = None, consumed_by = [] \<rparr>
      \<and> producers_of two_options_same_effects ''e1'' \<noteq> []"
    by code_simp
  from h v ghost_detectors_agree_on_produced [of two_options_same_effects "''e1''"
      "\<lparr> etype = ''flag'', stat = None, delta = 0, description = None, consumed_by = [] \<rparr>"
      browser_storage]
  show ?thesis by simp
qed

text \<open>
  Elsewhere the two differ: the runtime walks the catalog and ignores \<open>consumed_by\<close>,
  the validator walks the produced ids. Here \<open>e_unproduced\<close> is defined and never
  produced, \<open>e_inline\<close> carries an inline override, and \<open>e_undefined\<close> is produced
  and not defined.
\<close>

theorem ghost_detectors_differ_counterexample:
  "runtime_ghost_ids (load (new_engine browser_storage) ghost_views_differ) = [''e_unproduced'', ''e_inline'']
   \<and> ghost_effect_ids (validate ghost_views_differ) = [''e_undefined'']"
  by code_simp

end
